theory Spec2Isabelle
  imports Main "HOL-Library.Monad_Syntax" "HOL-Library.Multiset"
begin

section \<open>C values, strings and the store\<close>

text \<open>
  The development embeds \<^verbatim>\<open>sarray.c\<close> (Leptonica's string arrays).

  \<^item> A pointer is \<open>NULL\<close> or \<open>Ptr x\<close>. A \<^verbatim>\<open>char *\<close> is a \<open>string ptr\<close>: the
    characters before the terminating NUL, held by value.
  \<^item> An \<^verbatim>\<open>SARRAY *\<close> is an \<open>addr ptr\<close> into a store of \<open>SARRAY\<close> structs, so that
    two handles to one instance are one address.
  \<^item> \<^verbatim>\<open>l_int32\<close> is \<open>int\<close>: the development covers the runs in which no count or
    length leaves the 32-bit range.
  \<^item> Every function returns an \<open>option\<close>: \<open>None\<close> stands for an execution whose
    behaviour C leaves undefined (a freed or dangling handle, a slot outside the
    allocated array, \<^verbatim>\<open>strlen(NULL)\<close>, an uninitialised local). An error return of
    the source (\<^verbatim>\<open>ERROR_PTR\<close>, \<^verbatim>\<open>ERROR_INT\<close>) is the returned value: \<open>NULL\<close>, or the
    integer code. Allocation (\<^verbatim>\<open>CALLOC\<close>) is taken to succeed.
\<close>

datatype 'a ptr = NULL | Ptr 'a

definition NUL :: char where
  "NUL = CHR 0x00"

definition is_cstring :: "string \<Rightarrow> bool" where
  "is_cstring s = (NUL \<notin> set s)"

definition strlen :: "string ptr \<Rightarrow> int option" where
  "strlen p = (case p of NULL \<Rightarrow> None | Ptr s \<Rightarrow> Some (int (length s)))"

text \<open>
  \<^verbatim>\<open>L_INSERT\<close>, \<^verbatim>\<open>L_COPY\<close> and \<^verbatim>\<open>L_NOCOPY\<close> are declared in a header outside the
  sources; their values are fixed by the comments of \<^verbatim>\<open>sarrayAddString\<close> and
  \<^verbatim>\<open>sarrayGetString\<close>: 0 inserts or returns the string itself, 1 copies.
\<close>

definition L_INSERT :: int where "L_INSERT = 0"
definition L_NOCOPY :: int where "L_NOCOPY = 0"
definition L_COPY :: int where "L_COPY = 1"

definition INITIAL_PTR_ARRAYSIZE :: int where
  "INITIAL_PTR_ARRAYSIZE = 50"

definition L_BUF_SIZE :: int where
  "L_BUF_SIZE = 512"

text \<open>
  Modelled from the spec: \<^verbatim>\<open>UNDEF\<close>, the error value of \<^verbatim>\<open>sarrayGetRefcount\<close>, is a
  macro of a header outside the sources; the model takes Leptonica's \<open>-1\<close>.
\<close>

definition UNDEF :: int where "UNDEF = - 1"

text \<open>
  Modelled from the spec: \<^verbatim>\<open>stringNew\<close> (utils.c, outside the sources) returns a
  newly allocated duplicate of its argument.
\<close>

definition stringNew :: "string \<Rightarrow> string ptr" where
  "stringNew s = Ptr s"

record SARRAY =
  sa_nalloc :: int
  sa_n :: int
  sa_refcount :: int
  sa_array :: "string ptr list"

type_synonym addr = nat
type_synonym heap = "SARRAY option list"

definition deref :: "heap \<Rightarrow> addr \<Rightarrow> SARRAY option" where
  "deref h a = (if a < length h then h ! a else None)"

definition update :: "heap \<Rightarrow> addr \<Rightarrow> SARRAY \<Rightarrow> heap" where
  "update h a s = h[a := Some s]"

definition FREE :: "heap \<Rightarrow> addr \<Rightarrow> heap" where
  "FREE h a = h[a := None]"

text \<open>Reading and writing a slot of an allocated block; outside the block is undefined.\<close>

definition rd :: "'a list \<Rightarrow> int \<Rightarrow> 'a option" where
  "rd xs i = (if 0 \<le> i \<and> nat i < length xs then Some (xs ! nat i) else None)"

definition wr :: "'a list \<Rightarrow> int \<Rightarrow> 'a \<Rightarrow> 'a list option" where
  "wr xs i v = (if 0 \<le> i \<and> nat i < length xs then Some (xs[nat i := v]) else None)"

section \<open>Create, destroy, copy, clone\<close>

definition sarrayCreate :: "heap \<Rightarrow> int \<Rightarrow> addr ptr \<times> heap" where
  "sarrayCreate h n0 =
     (let n = (if n0 \<le> 0 then INITIAL_PTR_ARRAYSIZE else n0) in
      (Ptr (length h),
       h @ [Some \<lparr>sa_nalloc = n, sa_n = 0, sa_refcount = 1,
                  sa_array = replicate (nat n) NULL\<rparr>]))"

definition sarrayGetCount :: "heap \<Rightarrow> addr ptr \<Rightarrow> int option" where
  "sarrayGetCount h sa =
     (case sa of NULL \<Rightarrow> Some 0 | Ptr a \<Rightarrow> map_option sa_n (deref h a))"

definition sarrayGetRefcount :: "heap \<Rightarrow> addr ptr \<Rightarrow> int option" where
  "sarrayGetRefcount h sa =
     (case sa of NULL \<Rightarrow> Some UNDEF | Ptr a \<Rightarrow> map_option sa_refcount (deref h a))"

definition sarrayChangeRefcount :: "heap \<Rightarrow> addr ptr \<Rightarrow> int \<Rightarrow> (int \<times> heap) option" where
  "sarrayChangeRefcount h sa delta =
     (case sa of
        NULL \<Rightarrow> Some (UNDEF, h)
      | Ptr a \<Rightarrow> do {
          s \<leftarrow> deref h a;
          Some (0, update h a (s\<lparr>sa_refcount := sa_refcount s + delta\<rparr>))
        })"

text \<open>
  Modelled from the spec: \<^verbatim>\<open>reallocNew\<close> (utils.c, outside the sources) allocates a
  zeroed block of the new size and copies the old block into it. For a new size that is
  not positive it returns NULL, which \<^verbatim>\<open>sarrayExtendArray\<close> stores into \<^verbatim>\<open>sa->array\<close>
  and its only caller then dereferences: undefined.
\<close>

definition reallocNew :: "'a ptr list \<Rightarrow> int \<Rightarrow> int \<Rightarrow> 'a ptr list option" where
  "reallocNew arr oldn newn =
     (if 0 < newn \<and> nat (min oldn newn) \<le> length arr
      then Some (take (nat (min oldn newn)) arr @ replicate (nat (newn - min oldn newn)) NULL)
      else None)"

definition sarrayExtendArray :: "heap \<Rightarrow> addr ptr \<Rightarrow> (int \<times> heap) option" where
  "sarrayExtendArray h sa =
     (case sa of
        NULL \<Rightarrow> Some (1, h)
      | Ptr a \<Rightarrow> do {
          s \<leftarrow> deref h a;
          arr \<leftarrow> reallocNew (sa_array s) (sa_nalloc s) (2 * sa_nalloc s);
          Some (0, update h a (s\<lparr>sa_array := arr, sa_nalloc := 2 * sa_nalloc s\<rparr>))
        })"

definition sarrayAddString :: "heap \<Rightarrow> addr ptr \<Rightarrow> string ptr \<Rightarrow> int \<Rightarrow> (int \<times> heap) option" where
  "sarrayAddString h sa string copyflag =
     (case sa of
        NULL \<Rightarrow> Some (1, h)
      | Ptr a \<Rightarrow>
          (case string of
             NULL \<Rightarrow> Some (1, h)
           | Ptr str \<Rightarrow>
               if copyflag \<noteq> L_INSERT \<and> copyflag \<noteq> L_COPY then Some (1, h)
               else do {
                 n \<leftarrow> sarrayGetCount h sa;
                 s0 \<leftarrow> deref h a;
                 (_, h1) \<leftarrow> (if n \<ge> sa_nalloc s0 then sarrayExtendArray h sa else Some (0, h));
                 s1 \<leftarrow> deref h1 a;
                 arr \<leftarrow> wr (sa_array s1) n
                          (if copyflag = L_INSERT then Ptr str else stringNew str);
                 Some (0, update h1 a (s1\<lparr>sa_array := arr, sa_n := sa_n s1 + 1\<rparr>))
               }))"

function shift_loop :: "string ptr list \<Rightarrow> int \<Rightarrow> int \<Rightarrow> string ptr list option" where
  "shift_loop arr i n =
     (if i < n - 1
      then do { v \<leftarrow> rd arr (i + 1); arr' \<leftarrow> wr arr i v; shift_loop arr' (i + 1) n }
      else Some arr)"
  by pat_completeness auto
termination
  by (relation "measure (\<lambda>(arr, i, n). nat (n - 1 - i))") auto

declare shift_loop.simps [simp del]

definition sarrayRemoveString :: "heap \<Rightarrow> addr ptr \<Rightarrow> int \<Rightarrow> (string ptr \<times> heap) option" where
  "sarrayRemoveString h sa index =
     (case sa of
        NULL \<Rightarrow> Some (NULL, h)
      | Ptr a \<Rightarrow> do {
          s \<leftarrow> deref h a;
          let n = sa_n s;
          if index < 0 \<or> index \<ge> n then Some (NULL, h)
          else do {
            string \<leftarrow> rd (sa_array s) index;
            arr \<leftarrow> shift_loop (sa_array s) index n;
            Some (string, update h a (s\<lparr>sa_array := arr, sa_n := sa_n s - 1\<rparr>))
          }
        })"

function clear_loop :: "string ptr list \<Rightarrow> int \<Rightarrow> int \<Rightarrow> string ptr list option" where
  "clear_loop arr i n =
     (if i < n
      then do { arr' \<leftarrow> wr arr i NULL; clear_loop arr' (i + 1) n }
      else Some arr)"
  by pat_completeness auto
termination
  by (relation "measure (\<lambda>(arr, i, n). nat (n - i))") auto

declare clear_loop.simps [simp del]

definition sarrayClear :: "heap \<Rightarrow> addr ptr \<Rightarrow> heap option" where
  "sarrayClear h sa =
     (case sa of
        NULL \<Rightarrow> Some h
      | Ptr a \<Rightarrow> do {
          s \<leftarrow> deref h a;
          arr \<leftarrow> clear_loop (sa_array s) 0 (sa_n s);
          Some (update h a (s\<lparr>sa_array := arr, sa_n := 0\<rparr>))
        })"

definition sarrayGetString :: "heap \<Rightarrow> addr ptr \<Rightarrow> int \<Rightarrow> int \<Rightarrow> string ptr option" where
  "sarrayGetString h sa index copyflag =
     (case sa of
        NULL \<Rightarrow> Some NULL
      | Ptr a \<Rightarrow> do {
          s \<leftarrow> deref h a;
          if index < 0 \<or> index \<ge> sa_n s then Some NULL
          else if copyflag \<noteq> L_NOCOPY \<and> copyflag \<noteq> L_COPY then Some NULL
          else do {
            p \<leftarrow> rd (sa_array s) index;
            if copyflag = L_NOCOPY then Some p
            else (case p of NULL \<Rightarrow> None | Ptr str \<Rightarrow> Some (stringNew str))
          }
        })"

text \<open>
  \<^verbatim>\<open>sarrayDestroy(&sa)\<close>: the argument is the address of a handle; the result is the
  handle after the call (always nulled) and the store. The strings of a freed array are
  held by value in its struct and go with it.
\<close>

definition sarrayDestroy :: "heap \<Rightarrow> addr ptr ptr \<Rightarrow> (addr ptr ptr \<times> heap) option" where
  "sarrayDestroy h psa =
     (case psa of
        NULL \<Rightarrow> Some (NULL, h)
      | Ptr NULL \<Rightarrow> Some (Ptr NULL, h)
      | Ptr (Ptr a) \<Rightarrow> do {
          (_, h1) \<leftarrow> sarrayChangeRefcount h (Ptr a) (- 1);
          rc \<leftarrow> sarrayGetRefcount h1 (Ptr a);
          Some (Ptr NULL, if rc \<le> 0 then FREE h1 a else h1)
        })"




definition sarrayClone :: "heap \<Rightarrow> addr ptr \<Rightarrow> (addr ptr \<times> heap) option" where
  "sarrayClone h sa =
     (case sa of
        NULL \<Rightarrow> Some (NULL, h)
      | Ptr a \<Rightarrow> do {
          (_, h1) \<leftarrow> sarrayChangeRefcount h sa 1;
          Some (sa, h1)
        })"

section \<open>Conversion back to a string\<close>

text \<open>
  \<^verbatim>\<open>sarrayToStringRange\<close> first sums \<^verbatim>\<open>strlen + 2\<close> over the range to size \<^verbatim>\<open>dest\<close>,
  then copies. \<^verbatim>\<open>dest\<close> is zeroed and one byte longer than that sum, and each string
  adds at most its length plus one to \<^verbatim>\<open>index\<close>: the writes stay inside the block and
  the result is the text written, which the model builds by appending.
\<close>

function size_loop :: "heap \<Rightarrow> addr ptr \<Rightarrow> int \<Rightarrow> int \<Rightarrow> int \<Rightarrow> int option" where
  "size_loop h sa i lasti sz =
     (if i \<le> lasti
      then do {
        p \<leftarrow> sarrayGetString h sa i L_NOCOPY;
        len \<leftarrow> strlen p;
        size_loop h sa (i + 1) lasti (sz + (len + 2))
      }
      else Some sz)"
  by pat_completeness auto
termination
  by (relation "measure (\<lambda>(h, sa, i, lasti, sz). nat (lasti + 1 - i))") auto

declare size_loop.simps [simp del]

function join_loop :: "string ptr list \<Rightarrow> int \<Rightarrow> int \<Rightarrow> int \<Rightarrow> string \<Rightarrow> string option" where
  "join_loop arr addnlflag i lasti dest =
     (if i \<le> lasti
      then do {
        src \<leftarrow> rd arr i;
        len \<leftarrow> strlen src;
        s \<leftarrow> (case src of NULL \<Rightarrow> None | Ptr s \<Rightarrow> Some s);
        join_loop arr addnlflag (i + 1) lasti
          (dest @ s @ (if addnlflag = 1 then [CHR 0x0A] else if addnlflag = 2 then [CHR 0x20] else []))
      }
      else Some dest)"
  by pat_completeness auto
termination
  by (relation "measure (\<lambda>(arr, addnlflag, i, lasti, dest). nat (lasti + 1 - i))") auto

declare join_loop.simps [simp del]

definition sarrayToStringRange :: "heap \<Rightarrow> addr ptr \<Rightarrow> int \<Rightarrow> int \<Rightarrow> int \<Rightarrow> string ptr option" where
  "sarrayToStringRange h sa first nstrings0 addnlflag =
     (case sa of
        NULL \<Rightarrow> Some NULL
      | Ptr a \<Rightarrow> do {
          n \<leftarrow> sarrayGetCount h sa;
          if first < 0 \<or> first \<ge> n then Some NULL
          else do {
            let nstrings = (if nstrings0 = 0 \<or> nstrings0 > n - first then n - first else nstrings0);
            let lasti = first + nstrings - 1;
            sz \<leftarrow> size_loop h sa first lasti 0;
            s \<leftarrow> deref h a;
            dest \<leftarrow> join_loop (sa_array s) addnlflag first lasti [];
            Some (Ptr dest)
          }
        })"

definition sarrayToString :: "heap \<Rightarrow> addr ptr \<Rightarrow> int \<Rightarrow> string ptr option" where
  "sarrayToString h sa addnlflag =
     (case sa of NULL \<Rightarrow> Some NULL | Ptr a \<Rightarrow> sarrayToStringRange h sa 0 0 addnlflag)"

section \<open>Concatenation\<close>

text \<open>
  \<^verbatim>\<open>sarrayConcatenate\<close> adds copies of the strings of one array to another. Whether a
  slot holds a copy or a second pointer to the same string cannot be read off a store
  that holds every string by value in its slot. The functions that \<^verbatim>\<open>sarrayConcatenate\<close>
  calls are therefore embedded once more, over a memory in which a \<^verbatim>\<open>char *\<close> is the
  address of a string object: the slots of an array hold addresses, \<open>m_string\<close> maps an
  address to the bytes stored there (\<open>None\<close> once freed), and allocation appends. The
  names of these embeddings end in \<open>_obj\<close>; each follows the same source function as
  its namesake above.
\<close>

type_synonym saddr = nat

record SARRAY_obj =
  so_nalloc :: int
  so_n :: int
  so_refcount :: int
  so_array :: "saddr ptr list"

record memory =
  m_sarray :: "SARRAY_obj option list"
  m_string :: "string option list"

definition obj_at :: "'a option list \<Rightarrow> nat \<Rightarrow> 'a option" where
  "obj_at xs a = (if a < length xs then xs ! a else None)"

definition put :: "'a option list \<Rightarrow> nat \<Rightarrow> 'a \<Rightarrow> 'a option list" where
  "put xs a v = xs[a := Some v]"

text \<open>
  Modelled from the spec: \<^verbatim>\<open>stringNew\<close> (utils.c, outside the sources) returns a
  newly allocated duplicate of its argument: a new string object with the same bytes.
\<close>

definition stringNew_obj :: "memory \<Rightarrow> saddr \<Rightarrow> (saddr ptr \<times> memory) option" where
  "stringNew_obj m q =
     do {
       s \<leftarrow> obj_at (m_string m) q;
       Some (Ptr (length (m_string m)), m\<lparr>m_string := m_string m @ [Some s]\<rparr>)
     }"

definition sarrayGetCount_obj :: "memory \<Rightarrow> addr ptr \<Rightarrow> int option" where
  "sarrayGetCount_obj m sa =
     (case sa of NULL \<Rightarrow> Some 0 | Ptr a \<Rightarrow> map_option so_n (obj_at (m_sarray m) a))"

definition sarrayExtendArray_obj :: "memory \<Rightarrow> addr ptr \<Rightarrow> (int \<times> memory) option" where
  "sarrayExtendArray_obj m sa =
     (case sa of
        NULL \<Rightarrow> Some (1, m)
      | Ptr a \<Rightarrow> do {
          s \<leftarrow> obj_at (m_sarray m) a;
          arr \<leftarrow> reallocNew (so_array s) (so_nalloc s) (2 * so_nalloc s);
          Some (0, m\<lparr>m_sarray :=
                       put (m_sarray m) a (s\<lparr>so_array := arr, so_nalloc := 2 * so_nalloc s\<rparr>)\<rparr>)
        })"

definition sarrayAddString_obj ::
    "memory \<Rightarrow> addr ptr \<Rightarrow> saddr ptr \<Rightarrow> int \<Rightarrow> (int \<times> memory) option" where
  "sarrayAddString_obj m sa string copyflag =
     (case sa of
        NULL \<Rightarrow> Some (1, m)
      | Ptr a \<Rightarrow>
          (case string of
             NULL \<Rightarrow> Some (1, m)
           | Ptr q \<Rightarrow>
               if copyflag \<noteq> L_INSERT \<and> copyflag \<noteq> L_COPY then Some (1, m)
               else do {
                 n \<leftarrow> sarrayGetCount_obj m sa;
                 s0 \<leftarrow> obj_at (m_sarray m) a;
                 (_, m1) \<leftarrow> (if n \<ge> so_nalloc s0 then sarrayExtendArray_obj m sa
                              else Some (0, m));
                 (p, m2) \<leftarrow> (if copyflag = L_INSERT then Some (Ptr q, m1)
                              else stringNew_obj m1 q);
                 s1 \<leftarrow> obj_at (m_sarray m2) a;
                 arr \<leftarrow> wr (so_array s1) n p;
                 Some (0, m2\<lparr>m_sarray :=
                              put (m_sarray m2) a (s1\<lparr>so_array := arr, so_n := so_n s1 + 1\<rparr>)\<rparr>)
               }))"

definition sarrayGetString_obj ::
    "memory \<Rightarrow> addr ptr \<Rightarrow> int \<Rightarrow> int \<Rightarrow> (saddr ptr \<times> memory) option" where
  "sarrayGetString_obj m sa index copyflag =
     (case sa of
        NULL \<Rightarrow> Some (NULL, m)
      | Ptr a \<Rightarrow> do {
          s \<leftarrow> obj_at (m_sarray m) a;
          if index < 0 \<or> index \<ge> so_n s then Some (NULL, m)
          else if copyflag \<noteq> L_NOCOPY \<and> copyflag \<noteq> L_COPY then Some (NULL, m)
          else do {
            p \<leftarrow> rd (so_array s) index;
            if copyflag = L_NOCOPY then Some (p, m)
            else (case p of NULL \<Rightarrow> None | Ptr q \<Rightarrow> stringNew_obj m q)
          }
        })"

function concat_loop :: "memory \<Rightarrow> addr ptr \<Rightarrow> addr ptr \<Rightarrow> int \<Rightarrow> int \<Rightarrow> memory option" where
  "concat_loop m sa1 sa2 i n =
     (if i < n
      then do {
        (string, m1) \<leftarrow> sarrayGetString_obj m sa2 i L_NOCOPY;
        (_, m2) \<leftarrow> sarrayAddString_obj m1 sa1 string L_COPY;
        concat_loop m2 sa1 sa2 (i + 1) n
      }
      else Some m)"
  by pat_completeness auto
termination
  by (relation "measure (\<lambda>(m, sa1, sa2, i, n). nat (n - i))") auto

declare concat_loop.simps [simp del]

definition sarrayConcatenate :: "memory \<Rightarrow> addr ptr \<Rightarrow> addr ptr \<Rightarrow> (int \<times> memory) option" where
  "sarrayConcatenate m sa1 sa2 =
     (if sa1 = NULL then Some (1, m)
      else if sa2 = NULL then Some (1, m)
      else do {
        n \<leftarrow> sarrayGetCount_obj m sa2;
        m1 \<leftarrow> concat_loop m sa1 sa2 0 n;
        Some (0, m1)
      })"

section \<open>Words to lines\<close>

text \<open>The handle held in a local variable whose address was passed, after the call.\<close>

definition cell :: "'a ptr \<Rightarrow> 'a option" where
  "cell p = (case p of NULL \<Rightarrow> None | Ptr v \<Rightarrow> Some v)"

text \<open>
  The loop of \<^verbatim>\<open>sarrayConvertWordsToLines\<close>; its state is the store, \<^verbatim>\<open>i\<close>, \<^verbatim>\<open>sal\<close> and
  \<^verbatim>\<open>totlen\<close>. It returns the state at the exit of the loop.
\<close>

function words_loop ::
  "heap \<Rightarrow> addr ptr \<Rightarrow> int \<Rightarrow> addr ptr \<Rightarrow> int \<Rightarrow> int \<Rightarrow> addr ptr \<Rightarrow> int \<Rightarrow>
     (heap \<times> addr ptr \<times> int) option" where
  "words_loop h sa linesize saout n i sal0 totlen =
     (if i < n
      then do {
        let (sal, h1) = (if sal0 = NULL then sarrayCreate h 0 else (sal0, h));
        wd \<leftarrow> sarrayGetString h1 sa i L_NOCOPY;
        len \<leftarrow> strlen wd;
        if len = 0 then do {
          h2 \<leftarrow> (if totlen > 0
                 then do {
                   strl \<leftarrow> sarrayToString h1 sal 2;
                   (_, h') \<leftarrow> sarrayAddString h1 saout strl L_INSERT;
                   Some h'
                 }
                 else Some h1);
          (_, h3) \<leftarrow> sarrayAddString h2 saout (Ptr []) L_COPY;
          (psal, h4) \<leftarrow> sarrayDestroy h3 (Ptr sal);
          sal' \<leftarrow> cell psal;
          words_loop h4 sa linesize saout n (i + 1) sal' 0
        }
        else if totlen = 0 \<and> len + 1 > linesize then do {
          (_, h2) \<leftarrow> sarrayAddString h1 saout wd L_COPY;
          words_loop h2 sa linesize saout n (i + 1) sal totlen
        }
        else if totlen + len + 1 > linesize then do {
          strl \<leftarrow> sarrayToString h1 sal 2;
          (_, h2) \<leftarrow> sarrayAddString h1 saout strl L_INSERT;
          (psal, h3) \<leftarrow> sarrayDestroy h2 (Ptr sal);
          let (sal', h4) = sarrayCreate h3 0;
          (_, h5) \<leftarrow> sarrayAddString h4 sal' wd L_COPY;
          words_loop h5 sa linesize saout n (i + 1) sal' (len + 1)
        }
        else do {
          (_, h2) \<leftarrow> sarrayAddString h1 sal wd L_COPY;
          words_loop h2 sa linesize saout n (i + 1) sal (totlen + len + 1)
        }
      }
      else Some (h, sal0, totlen))"
  by pat_completeness auto
termination
  by (relation "measure (\<lambda>(h, sa, linesize, saout, n, i, sal0, totlen). nat (n - i))") auto

declare words_loop.simps [simp del]

definition sarrayConvertWordsToLines :: "heap \<Rightarrow> addr ptr \<Rightarrow> int \<Rightarrow> (addr ptr \<times> heap) option" where
  "sarrayConvertWordsToLines h sa linesize =
     (case sa of
        NULL \<Rightarrow> Some (NULL, h)
      | Ptr a \<Rightarrow> do {
          let (saout, h0) = sarrayCreate h 0;
          n \<leftarrow> sarrayGetCount h0 sa;
          (h1, sal, totlen) \<leftarrow> words_loop h0 sa linesize saout n 0 NULL 0;
          if totlen > 0 then do {
            strl \<leftarrow> sarrayToString h1 sal 2;
            (_, h2) \<leftarrow> sarrayAddString h1 saout strl L_INSERT;
            (psal, h3) \<leftarrow> sarrayDestroy h2 (Ptr sal);
            Some (saout, h3)
          }
          else Some (saout, h1)
        })"

section \<open>Splitting a string\<close>

text \<open>
  Modelled from the spec: \<^verbatim>\<open>strtokSafe\<close> (utils.c, outside the sources) is the
  re-entrant tokenizer: called with the string, or with NULL to go on from \<^verbatim>\<open>saveptr\<close>,
  it skips separators, returns a new copy of the next maximal run of other characters
  (NULL when there is none) and leaves in \<^verbatim>\<open>saveptr\<close> the text after that run.
\<close>

definition strtokSafe :: "string ptr \<Rightarrow> string \<Rightarrow> string ptr \<Rightarrow> string ptr \<times> string ptr" where
  "strtokSafe cstr seps saveptr =
     (case (if cstr = NULL then saveptr else cstr) of
        NULL \<Rightarrow> (NULL, NULL)
      | Ptr start \<Rightarrow>
          (let s1 = dropWhile (\<lambda>c. c \<in> set seps) start in
           if s1 = [] then (NULL, NULL)
           else (Ptr (takeWhile (\<lambda>c. c \<notin> set seps) s1),
                 (case dropWhile (\<lambda>c. c \<notin> set seps) s1 of
                    [] \<Rightarrow> NULL
                  | _ # rest \<Rightarrow> Ptr rest))))"

function split_loop :: "heap \<Rightarrow> addr ptr \<Rightarrow> string \<Rightarrow> string ptr \<Rightarrow> heap option" where
  "split_loop h sa seps saveptr =
     (case strtokSafe NULL seps saveptr of
        (NULL, _) \<Rightarrow> Some h
      | (Ptr substr, saveptr') \<Rightarrow> do {
          (_, h1) \<leftarrow> sarrayAddString h sa (Ptr substr) L_INSERT;
          split_loop h1 sa seps saveptr'
        })"
  by pat_completeness auto
termination
  apply (relation "measure (\<lambda>(h, sa, seps, saveptr). case saveptr of NULL \<Rightarrow> 0 | Ptr s \<Rightarrow> Suc (length s))")
   apply simp
  apply simp
  subgoal premises prems for h sa seps saveptr x y x2
  proof -
    from prems(1) obtain start where st: "saveptr = Ptr start"
      by (cases saveptr) (auto simp: strtokSafe_def)
    let ?s1 = "dropWhile (\<lambda>c. c \<in> set seps) start"
    have l1: "length ?s1 \<le> length start"
      by (rule length_dropWhile_le)
    have l2: "length (dropWhile (\<lambda>c. c \<notin> set seps) ?s1) \<le> length ?s1"
      by (rule length_dropWhile_le)
    from prems(1) st have ne: "?s1 \<noteq> []"
      by (auto simp: strtokSafe_def Let_def split: if_splits)
    with prems(1) st
    have y: "y = (case dropWhile (\<lambda>c. c \<notin> set seps) ?s1 of [] \<Rightarrow> NULL | _ # rest \<Rightarrow> Ptr rest)"
      by (auto simp: strtokSafe_def Let_def split: if_splits)
    show ?thesis
    proof (cases "dropWhile (\<lambda>c. c \<notin> set seps) ?s1")
      case Nil
      with y st show ?thesis by simp
    next
      case (Cons c rest)
      with l2 have "Suc (length rest) \<le> length ?s1" by simp
      with l1 Cons y st show ?thesis by simp
    qed
  qed
  done

declare split_loop.simps [simp del]

definition sarraySplitString :: "heap \<Rightarrow> addr ptr \<Rightarrow> string ptr \<Rightarrow> string ptr \<Rightarrow> (int \<times> heap) option" where
  "sarraySplitString h sa str separators =
     (if sa = NULL then Some (1, h)
      else case str of
        NULL \<Rightarrow> Some (1, h)
      | Ptr s \<Rightarrow>
          (case separators of
             NULL \<Rightarrow> Some (1, h)
           | Ptr seps \<Rightarrow> do {
               let cstr = stringNew s;
               let (substr, saveptr) = strtokSafe cstr seps NULL;
               (_, h1) \<leftarrow> (if substr \<noteq> NULL then sarrayAddString h sa substr L_INSERT
                            else Some (0, h));
               h2 \<leftarrow> split_loop h1 sa seps saveptr;
               Some (0, h2)
             }))"

text \<open>The pre-scan of \<^verbatim>\<open>sarrayCreateWordsFromString\<close>: the loop over the characters.\<close>

fun count_words :: "string \<Rightarrow> bool \<Rightarrow> int \<Rightarrow> int" where
  "count_words [] inword nsub = nsub"
| "count_words (c # cs) inword nsub =
     (if inword = False \<and> (c \<noteq> CHR 0x20 \<and> c \<noteq> CHR 0x09 \<and> c \<noteq> CHR 0x0A)
      then count_words cs True (nsub + 1)
      else if inword = True \<and> (c = CHR 0x20 \<or> c = CHR 0x09 \<or> c = CHR 0x0A)
      then count_words cs False nsub
      else count_words cs inword nsub)"

definition sarrayCreateWordsFromString :: "heap \<Rightarrow> string ptr \<Rightarrow> (addr ptr \<times> heap) option" where
  "sarrayCreateWordsFromString h string =
     (case string of
        NULL \<Rightarrow> Some (NULL, h)
      | Ptr s \<Rightarrow> do {
          let nsub = count_words s False 0;
          let separators = [CHR 0x20, CHR 0x0A, CHR 0x09];
          let (sa, h1) = sarrayCreate h nsub;
          (_, h2) \<leftarrow> sarraySplitString h1 sa string (Ptr separators);
          Some (sa, h2)
        })"

text \<open>
  The loop of \<^verbatim>\<open>sarrayCreateLinesFromString\<close> for \<^verbatim>\<open>blankflag != 0\<close>, over the copy
  \<^verbatim>\<open>cstring\<close> in which each newline is overwritten by NUL; \<^verbatim>\<open>cstring + startptr\<close> is the
  text from \<^verbatim>\<open>startptr\<close> up to the next NUL.
\<close>

definition c_string_at :: "string \<Rightarrow> int \<Rightarrow> string option" where
  "c_string_at buf i =
     (if 0 \<le> i \<and> nat i \<le> length buf \<and> NUL \<in> set (drop (nat i) buf)
      then Some (takeWhile (\<lambda>c. c \<noteq> NUL) (drop (nat i) buf))
      else None)"

function lines_loop ::
  "heap \<Rightarrow> addr ptr \<Rightarrow> string \<Rightarrow> int \<Rightarrow> int \<Rightarrow> int \<Rightarrow> (heap \<times> string \<times> int) option" where
  "lines_loop h sa cstring sz i startptr =
     (if i < sz
      then do {
        c \<leftarrow> rd cstring i;
        if c = CHR 0x0A then do {
          cstring' \<leftarrow> wr cstring i NUL;
          substring \<leftarrow> c_string_at cstring' startptr;
          (_, h1) \<leftarrow> sarrayAddString h sa (stringNew substring) L_INSERT;
          lines_loop h1 sa cstring' sz (i + 1) (i + 1)
        }
        else lines_loop h sa cstring sz (i + 1) startptr
      }
      else Some (h, cstring, startptr))"
  by pat_completeness auto
termination
  by (relation "measure (\<lambda>(h, sa, cstring, sz, i, startptr). nat (sz - i))") auto

declare lines_loop.simps [simp del]

fun count_lines :: "string \<Rightarrow> int \<Rightarrow> int" where
  "count_lines [] nsub = nsub"
| "count_lines (c # cs) nsub = count_lines cs (if c = CHR 0x0A then nsub + 1 else nsub)"

definition sarrayCreateLinesFromString :: "heap \<Rightarrow> string ptr \<Rightarrow> int \<Rightarrow> (addr ptr \<times> heap) option" where
  "sarrayCreateLinesFromString h string blankflag =
     (case string of
        NULL \<Rightarrow> Some (NULL, h)
      | Ptr s \<Rightarrow> do {
          let sz = int (length s);
          let nsub = count_lines s 0;
          let (sa, h1) = sarrayCreate h nsub;
          if blankflag \<noteq> 0 then do {
            (h2, cstring, startptr) \<leftarrow> lines_loop h1 sa (s @ [NUL]) sz 0 0;
            if startptr < sz then do {
              substring \<leftarrow> c_string_at cstring startptr;
              (_, h3) \<leftarrow> sarrayAddString h2 sa (stringNew substring) L_INSERT;
              Some (sa, h3)
            }
            else Some (sa, h2)
          }
          else do {
            (_, h2) \<leftarrow> sarraySplitString h1 sa string (Ptr [CHR 0x0A]);
            Some (sa, h2)
          }
        })"

section \<open>Sort\<close>












section \<open>Vocabulary of the statements\<close>

text \<open>
  These definitions are not taken from the source: they name what the theorems speak about.
  \<open>sa_inv\<close> is the invariant of an array, \<open>sa_wf\<close> adds that every live slot holds a
  string, \<open>sa_strings\<close> is the list of the live strings, \<open>add_str\<close> is the struct after
  a string was added, and \<open>reachable\<close> are the states of an array that its creation and
  the operations that add, remove and clear lead to.
\<close>

definition sa_inv :: "SARRAY \<Rightarrow> bool" where
  "sa_inv s = (0 \<le> sa_n s \<and> sa_n s \<le> sa_nalloc s \<and> 0 < sa_nalloc s \<and>
     length (sa_array s) = nat (sa_nalloc s))"

definition add_str :: "SARRAY \<Rightarrow> string \<Rightarrow> SARRAY" where
  "add_str s str =
     \<lparr>sa_nalloc = (if sa_n s = sa_nalloc s then 2 * sa_nalloc s else sa_nalloc s),
      sa_n = sa_n s + 1,
      sa_refcount = sa_refcount s,
      sa_array = (if sa_n s = sa_nalloc s
                  then sa_array s @ replicate (nat (sa_nalloc s)) NULL
                  else sa_array s)[nat (sa_n s) := Ptr str]\<rparr>"

definition inv_at :: "heap \<Rightarrow> addr \<Rightarrow> bool" where
  "inv_at h a = (case deref h a of None \<Rightarrow> False | Some s \<Rightarrow> sa_inv s)"

inductive reachable :: "heap \<Rightarrow> addr \<Rightarrow> bool" where
  created: "sarrayCreate h0 n0 = (Ptr a, h) \<Longrightarrow> reachable h a"
| create_other: "reachable h a \<Longrightarrow> sarrayCreate h n0 = (p, h') \<Longrightarrow> reachable h' a"
| add: "reachable h a \<Longrightarrow> sarrayAddString h sa string flag = Some (rc, h') \<Longrightarrow> reachable h' a"
| remove: "reachable h a \<Longrightarrow> sarrayRemoveString h sa idx = Some (q, h') \<Longrightarrow> reachable h' a"
| clear: "reachable h a \<Longrightarrow> sarrayClear h sa = Some h' \<Longrightarrow> reachable h' a"

definition sa_wf :: "SARRAY \<Rightarrow> bool" where
  "sa_wf s = (sa_inv s \<and> list_all (\<lambda>p. p \<noteq> NULL) (take (nat (sa_n s)) (sa_array s)))"

definition sa_strings :: "SARRAY \<Rightarrow> string list" where
  "sa_strings s = map (\<lambda>p. case p of NULL \<Rightarrow> [] | Ptr x \<Rightarrow> x) (take (nat (sa_n s)) (sa_array s))"

definition sep_of :: "int \<Rightarrow> string" where
  "sep_of addnlflag = (if addnlflag = 1 then [CHR 0x0A] else if addnlflag = 2 then [CHR 0x20] else [])"

definition join_with :: "int \<Rightarrow> string list \<Rightarrow> string" where
  "join_with addnlflag ws = concat (map (\<lambda>w. w @ sep_of addnlflag) ws)"

fun reflow_lines :: "int \<Rightarrow> string list \<Rightarrow> int \<Rightarrow> string list \<Rightarrow> string list" where
  "reflow_lines linesize cur totlen [] = (if totlen > 0 then [join_with 2 cur] else [])"
| "reflow_lines linesize cur totlen (wd # ws) =
     (if length wd = 0
      then (if totlen > 0 then [join_with 2 cur] else []) @ [] # reflow_lines linesize [] 0 ws
      else if totlen = 0 \<and> int (length wd) + 1 > linesize
      then wd # reflow_lines linesize cur totlen ws
      else if totlen + int (length wd) + 1 > linesize
      then join_with 2 cur # reflow_lines linesize [wd] (int (length wd) + 1) ws
      else reflow_lines linesize (cur @ [wd]) (totlen + int (length wd) + 1) ws)"

definition sal_ok :: "heap \<Rightarrow> addr \<Rightarrow> addr \<Rightarrow> addr ptr \<Rightarrow> string list \<Rightarrow> bool" where
  "sal_ok h a b sal cur =
     (case sal of
        NULL \<Rightarrow> cur = []
      | Ptr l \<Rightarrow> l \<noteq> a \<and> l \<noteq> b \<and>
          (case deref h l of
             None \<Rightarrow> False
           | Some sl \<Rightarrow> sa_wf sl \<and> sa_strings sl = cur \<and> sa_refcount sl = 1))"

definition empty_sa :: SARRAY where
  "empty_sa = \<lparr>sa_nalloc = 50, sa_n = 0, sa_refcount = 1, sa_array = replicate 50 NULL\<rparr>"

text \<open>
  The same vocabulary over the memory of string objects: \<open>so_inv\<close> is the invariant of
  an array, \<open>string_at\<close> reads the bytes a \<^verbatim>\<open>char *\<close> points to, \<open>so_slots\<close> are the live
  slots of an array, \<open>so_wf\<close> adds that every live slot points to a string that is
  allocated, \<open>so_strings\<close> are the bytes of the live strings, and \<open>add_obj\<close> is the
  struct after the address of a string was added.
\<close>

definition so_inv :: "SARRAY_obj \<Rightarrow> bool" where
  "so_inv s = (0 \<le> so_n s \<and> so_n s \<le> so_nalloc s \<and> 0 < so_nalloc s \<and>
     length (so_array s) = nat (so_nalloc s))"

definition string_at :: "memory \<Rightarrow> saddr ptr \<Rightarrow> string option" where
  "string_at m p = (case p of NULL \<Rightarrow> None | Ptr q \<Rightarrow> obj_at (m_string m) q)"

definition so_slots :: "SARRAY_obj \<Rightarrow> saddr ptr list" where
  "so_slots s = take (nat (so_n s)) (so_array s)"

definition so_wf :: "memory \<Rightarrow> SARRAY_obj \<Rightarrow> bool" where
  "so_wf m s = (so_inv s \<and> list_all (\<lambda>p. string_at m p \<noteq> None) (so_slots s))"

definition so_strings :: "memory \<Rightarrow> SARRAY_obj \<Rightarrow> string list" where
  "so_strings m s = map (\<lambda>p. case string_at m p of None \<Rightarrow> [] | Some x \<Rightarrow> x) (so_slots s)"

definition add_obj :: "SARRAY_obj \<Rightarrow> saddr \<Rightarrow> SARRAY_obj" where
  "add_obj s q =
     \<lparr>so_nalloc = (if so_n s = so_nalloc s then 2 * so_nalloc s else so_nalloc s),
      so_n = so_n s + 1,
      so_refcount = so_refcount s,
      so_array = (if so_n s = so_nalloc s
                  then so_array s @ replicate (nat (so_nalloc s)) NULL
                  else so_array s)[nat (so_n s) := Ptr q]\<rparr>"

text \<open>The memory after the string object at \<open>q\<close> was overwritten (\<open>Some\<close> bytes) or freed (\<open>None\<close>).\<close>

definition poke :: "memory \<Rightarrow> saddr \<Rightarrow> string option \<Rightarrow> memory" where
  "poke m q v = m\<lparr>m_string := (m_string m)[q := v]\<rparr>"

(*PART3*)
section \<open>The array invariant\<close>
text \<open>
  Facts about the store and about slots, and the invariant of a well-formed array:
  \<open>0 \<le> n \<le> nalloc\<close>, with a block of exactly \<open>nalloc\<close> slots.
\<close>
lemma deref_update: "deref (update h a s) b = (if b = a \<and> a < length h then Some s else deref h b)"
  by (auto simp: deref_def update_def)
lemma length_update: "length (update h a s) = length h"
  by (simp add: update_def)
lemma update_update: "update (update h a s) a s' = update h a s'"
  by (simp add: update_def)
lemma deref_Some_less: "deref h a = Some s \<Longrightarrow> a < length h"
  by (auto simp: deref_def split: if_splits)
lemma deref_FREE: "deref (FREE h a) b = (if b = a then None else deref h b)"
  by (auto simp: deref_def FREE_def)
lemma deref_append_new: "deref (h @ [x]) b = (if b = length h then x else deref h b)"
  by (auto simp: deref_def nth_append)
lemma rd_Some: "0 \<le> i \<Longrightarrow> nat i < length xs \<Longrightarrow> rd xs i = Some (xs ! nat i)"
  by (simp add: rd_def)
lemma wr_Some: "0 \<le> i \<Longrightarrow> nat i < length xs \<Longrightarrow> wr xs i v = Some (xs[nat i := v])"
  by (simp add: wr_def)
lemma wr_length: "wr xs i v = Some ys \<Longrightarrow> length ys = length xs"
  by (auto simp: wr_def split: if_splits)
lemma shift_loop_length: "shift_loop arr i n = Some arr' \<Longrightarrow> length arr' = length arr"
proof (induction arr i n arbitrary: arr' rule: shift_loop.induct)
  case (1 arr i n)
  show ?case
  proof (cases "i < n - 1")
    case True
    with "1.prems" obtain v a1 where v: "rd arr (i + 1) = Some v" and a1: "wr arr i v = Some a1"
      and r: "shift_loop a1 (i + 1) n = Some arr'"
      by (subst (asm) shift_loop.simps) (auto simp: bind_eq_Some_conv)
    from "1.IH"[OF True v a1 r] wr_length[OF a1] show ?thesis by simp
  next
    case False
    with "1.prems" show ?thesis by (subst (asm) shift_loop.simps) simp
  qed
qed
lemma shift_loop_defined:
  "0 \<le> i \<Longrightarrow> nat n \<le> length arr \<Longrightarrow> \<exists>arr'. shift_loop arr i n = Some arr'"
proof (induction arr i n rule: shift_loop.induct)
  case (1 arr i n)
  show ?case
  proof (cases "i < n - 1")
    case True
    with "1.prems" have v: "rd arr (i + 1) = Some (arr ! nat (i + 1))" by (intro rd_Some) auto
    from True "1.prems" have a1: "wr arr i (arr ! nat (i + 1)) = Some (arr[nat i := arr ! nat (i + 1)])"
      by (intro wr_Some) auto
    from "1.IH"[OF True v a1] "1.prems" obtain arr' where
      "shift_loop (arr[nat i := arr ! nat (i + 1)]) (i + 1) n = Some arr'" by auto
    with True v a1 show ?thesis by (subst shift_loop.simps) simp
  next
    case False
    then show ?thesis by (subst shift_loop.simps) simp
  qed
qed
lemma clear_loop_length: "clear_loop arr i n = Some arr' \<Longrightarrow> length arr' = length arr"
proof (induction arr i n arbitrary: arr' rule: clear_loop.induct)
  case (1 arr i n)
  show ?case
  proof (cases "i < n")
    case True
    with "1.prems" obtain a1 where a1: "wr arr i NULL = Some a1"
      and r: "clear_loop a1 (i + 1) n = Some arr'"
      by (subst (asm) clear_loop.simps) (auto simp: bind_eq_Some_conv)
    from "1.IH"[OF True a1 r] wr_length[OF a1] show ?thesis by simp
  next
    case False
    with "1.prems" show ?thesis by (subst (asm) clear_loop.simps) simp
  qed
qed
lemma clear_loop_defined:
  "0 \<le> i \<Longrightarrow> nat n \<le> length arr \<Longrightarrow> \<exists>arr'. clear_loop arr i n = Some arr'"
proof (induction arr i n rule: clear_loop.induct)
  case (1 arr i n)
  show ?case
  proof (cases "i < n")
    case True
    with "1.prems" have a1: "wr arr i NULL = Some (arr[nat i := NULL])"
      by (intro wr_Some) auto
    from "1.IH"[OF True a1] "1.prems" obtain arr' where
      "clear_loop (arr[nat i := NULL]) (i + 1) n = Some arr'" by auto
    with True a1 show ?thesis by (subst clear_loop.simps) simp
  next
    case False
    then show ?thesis by (subst clear_loop.simps) simp
  qed
qed
lemma sarrayAddString_ok:
  assumes d: "deref h a = Some s" and inv: "sa_inv s"
    and flag: "flag = L_INSERT \<or> flag = L_COPY"
  shows "sarrayAddString h (Ptr a) (Ptr str) flag = Some (0, update h a (add_str s str))"
proof (cases "sa_n s = sa_nalloc s")
  case True
  from d have al: "a < length h" by (rule deref_Some_less)
  from inv True have r: "reallocNew (sa_array s) (sa_nalloc s) (2 * sa_nalloc s) =
      Some (sa_array s @ replicate (nat (sa_nalloc s)) NULL)"
    by (simp add: reallocNew_def sa_inv_def min_def)
  show ?thesis using d inv flag True al r
    by (cases s) (auto simp: sarrayAddString_def sarrayGetCount_def sarrayExtendArray_def deref_update
        wr_def sa_inv_def stringNew_def L_INSERT_def L_COPY_def update_update add_str_def)
next
  case False
  show ?thesis using d inv flag False
    by (cases s) (auto simp: sarrayAddString_def sarrayGetCount_def wr_def sa_inv_def stringNew_def
        L_INSERT_def L_COPY_def add_str_def)
qed
lemma add_str_inv: "sa_inv s \<Longrightarrow> sa_inv (add_str s str)"
  by (auto simp: sa_inv_def add_str_def)
lemma inv_atI: "deref h a = Some s \<Longrightarrow> sa_inv s \<Longrightarrow> inv_at h a"
  by (simp add: inv_at_def)
lemma inv_atE: "inv_at h a \<Longrightarrow> \<exists>s. deref h a = Some s \<and> sa_inv s"
  by (auto simp: inv_at_def split: option.splits)
lemma sarrayCreate_new:
  "sarrayCreate h0 n0 = (p, h) \<Longrightarrow>
     p = Ptr (length h0) \<and>
     deref h (length h0) = Some \<lparr>sa_nalloc = (if n0 \<le> 0 then 50 else n0), sa_n = 0, sa_refcount = 1,
        sa_array = replicate (nat (if n0 \<le> 0 then 50 else n0)) NULL\<rparr> \<and>
     (\<forall>b. b \<noteq> length h0 \<longrightarrow> deref h b = deref h0 b) \<and> length h = Suc (length h0)"
  by (auto simp: sarrayCreate_def Let_def deref_append_new INITIAL_PTR_ARRAYSIZE_def)
lemma sarrayCreate_inv: "sarrayCreate h0 n0 = (Ptr a, h) \<Longrightarrow> inv_at h a"
  by (drule sarrayCreate_new) (auto simp: inv_at_def sa_inv_def)
lemma sarrayExtendArray_frame:
  "sarrayExtendArray h (Ptr b) = Some (rc, h') \<Longrightarrow> b \<noteq> a \<Longrightarrow> deref h' a = deref h a"
  by (auto simp: sarrayExtendArray_def bind_eq_Some_conv deref_update)
lemma sarrayAddString_frame:
  "sarrayAddString h (Ptr b) string flag = Some (rc, h') \<Longrightarrow> b \<noteq> a \<Longrightarrow> deref h' a = deref h a"
  by (auto simp: sarrayAddString_def bind_eq_Some_conv deref_update
      split: ptr.splits if_splits dest: sarrayExtendArray_frame)
lemma sarrayAddString_inv:
  assumes "inv_at h a" and "sarrayAddString h sa string flag = Some (rc, h')"
  shows "inv_at h' a"
proof (cases sa)
  case NULL
  with assms show ?thesis by (simp add: sarrayAddString_def)
next
  case (Ptr b)
  show ?thesis
  proof (cases "b = a")
    case False
    with assms Ptr show ?thesis by (simp add: inv_at_def sarrayAddString_frame)
  next
    case True
    from assms(1) obtain s where s: "deref h a = Some s" "sa_inv s" by (auto dest: inv_atE)
    show ?thesis
    proof (cases "string = NULL \<or> (flag \<noteq> L_INSERT \<and> flag \<noteq> L_COPY)")
      case True
      with assms Ptr have "h' = h" by (auto simp: sarrayAddString_def split: ptr.splits)
      with assms show ?thesis by simp
    next
      case False
      then obtain str where str: "string = Ptr str" by (cases string) auto
      from False have fl: "flag = L_INSERT \<or> flag = L_COPY" by auto
      from sarrayAddString_ok[OF s fl, of str] assms(2) Ptr \<open>b = a\<close> str
      have "h' = update h a (add_str s str)" by simp
      with s show ?thesis
        by (auto simp: inv_at_def deref_update add_str_inv dest: deref_Some_less)
    qed
  qed
qed
lemma sarrayRemoveString_ok:
  assumes d: "deref h a = Some s" and inv: "sa_inv s" and idx: "0 \<le> idx" "idx < sa_n s"
  shows "\<exists>arr. sarrayRemoveString h (Ptr a) idx =
           Some (sa_array s ! nat idx, update h a (s\<lparr>sa_array := arr, sa_n := sa_n s - 1\<rparr>)) \<and>
         length arr = length (sa_array s)"
proof -
  from inv idx have r: "rd (sa_array s) idx = Some (sa_array s ! nat idx)"
    by (intro rd_Some) (auto simp: sa_inv_def)
  from inv have "nat (sa_n s) \<le> length (sa_array s)" by (auto simp: sa_inv_def)
  with idx obtain arr where arr: "shift_loop (sa_array s) idx (sa_n s) = Some arr"
    using shift_loop_defined[of idx "sa_n s" "sa_array s"] by auto
  from d idx r arr shift_loop_length[OF arr] show ?thesis
    by (auto simp: sarrayRemoveString_def Let_def)
qed
lemma sarrayRemoveString_inv:
  assumes "inv_at h a" and "sarrayRemoveString h sa idx = Some (p, h')"
  shows "inv_at h' a"
proof (cases sa)
  case NULL
  with assms show ?thesis by (simp add: sarrayRemoveString_def)
next
  case (Ptr b)
  show ?thesis
  proof (cases "b = a")
    case False
    with assms Ptr have "deref h' a = deref h a"
      by (auto simp: sarrayRemoveString_def Let_def bind_eq_Some_conv deref_update split: if_splits)
    with assms show ?thesis by (simp add: inv_at_def)
  next
    case True
    from assms(1) obtain s where s: "deref h a = Some s" "sa_inv s" by (auto dest: inv_atE)
    show ?thesis
    proof (cases "0 \<le> idx \<and> idx < sa_n s")
      case False
      with assms Ptr True s have "h' = h"
        by (auto simp: sarrayRemoveString_def Let_def)
      with assms show ?thesis by simp
    next
      case inr: True
      with sarrayRemoveString_ok[OF s] obtain arr where
        "sarrayRemoveString h (Ptr a) idx =
           Some (sa_array s ! nat idx, update h a (s\<lparr>sa_array := arr, sa_n := sa_n s - 1\<rparr>))"
        "length arr = length (sa_array s)" by blast
      with assms Ptr True s inr show ?thesis
        by (auto simp: inv_at_def deref_update sa_inv_def dest: deref_Some_less)
    qed
  qed
qed
lemma sarrayClear_ok:
  assumes d: "deref h a = Some s" and inv: "sa_inv s"
  shows "\<exists>arr. sarrayClear h (Ptr a) = Some (update h a (s\<lparr>sa_array := arr, sa_n := 0\<rparr>)) \<and>
         length arr = length (sa_array s)"
proof -
  from inv have "nat (sa_n s) \<le> length (sa_array s)" by (auto simp: sa_inv_def)
  then obtain arr where arr: "clear_loop (sa_array s) 0 (sa_n s) = Some arr"
    using clear_loop_defined[of 0 "sa_n s" "sa_array s"] by auto
  from d arr clear_loop_length[OF arr] show ?thesis
    by (auto simp: sarrayClear_def)
qed
lemma sarrayClear_inv:
  assumes "inv_at h a" and "sarrayClear h sa = Some h'"
  shows "inv_at h' a"
proof (cases sa)
  case NULL
  with assms show ?thesis by (simp add: sarrayClear_def)
next
  case (Ptr b)
  show ?thesis
  proof (cases "b = a")
    case False
    with assms Ptr have "deref h' a = deref h a"
      by (auto simp: sarrayClear_def bind_eq_Some_conv deref_update)
    with assms show ?thesis by (simp add: inv_at_def)
  next
    case True
    from assms(1) obtain s where s: "deref h a = Some s" "sa_inv s" by (auto dest: inv_atE)
    with sarrayClear_ok[OF s] assms Ptr True show ?thesis
      by (auto simp: inv_at_def deref_update sa_inv_def dest: deref_Some_less)
  qed
qed
lemma reachable_inv: "reachable h a \<Longrightarrow> inv_at h a"
proof (induction rule: reachable.induct)
  case (created h0 n0 a h)
  then show ?case by (rule sarrayCreate_inv)
next
  case (create_other h a n0 p h')
  from sarrayCreate_new[OF create_other.hyps(2)] create_other.IH show ?case
    by (auto simp: inv_at_def deref_def split: option.splits if_splits)
next
  case (add h a sa string flag rc h')
  then show ?case by (auto intro: sarrayAddString_inv)
next
  case (remove h a sa idx q h')
  then show ?case by (auto intro: sarrayRemoveString_inv)
next
  case (clear h a sa h')
  then show ?case by (auto intro: sarrayClear_inv)
qed
text \<open>
  Claim C9. In every state reached from \<^verbatim>\<open>sarrayCreate\<close> by \<^verbatim>\<open>sarrayAddString\<close>,
  \<^verbatim>\<open>sarrayRemoveString\<close> and \<^verbatim>\<open>sarrayClear\<close> (on this array or another, and with
  further arrays created in between) the array has \<open>0 \<le> n \<le> nalloc\<close>. Creation gives
  \<open>n = 0\<close>; adding a string to a full array (\<open>n = nalloc\<close>) doubles \<open>nalloc\<close> and then
  stores the string in slot \<open>n\<close>, and leaves \<open>nalloc\<close> as it is otherwise; removing a
  string takes one from \<open>n\<close> and clearing sets \<open>n\<close> to 0, both with \<open>nalloc\<close> unchanged.
\<close>
theorem sarray_count_within_capacity:
  "(reachable h a \<longrightarrow> (\<exists>s. deref h a = Some s \<and> 0 \<le> sa_n s \<and> sa_n s \<le> sa_nalloc s)) \<and>
   (sarrayCreate h0 n0 = (Ptr a0, h1) \<longrightarrow>
      (\<exists>s. deref h1 a0 = Some s \<and> sa_n s = 0 \<and> sa_nalloc s = (if n0 \<le> 0 then 50 else n0))) \<and>
   (reachable h a \<and> deref h a = Some s \<and> (flag = L_INSERT \<or> flag = L_COPY) \<longrightarrow>
      (\<exists>s'. sarrayAddString h (Ptr a) (Ptr str) flag = Some (0, update h a s') \<and>
         sa_n s' = sa_n s + 1 \<and>
         sa_nalloc s' = (if sa_n s = sa_nalloc s then 2 * sa_nalloc s else sa_nalloc s) \<and>
         rd (sa_array s') (sa_n s) = Some (Ptr str))) \<and>
   (reachable h a \<and> deref h a = Some s \<and> 0 \<le> idx \<and> idx < sa_n s \<longrightarrow>
      (\<exists>s'. sarrayRemoveString h (Ptr a) idx = Some (sa_array s ! nat idx, update h a s') \<and>
         sa_n s' = sa_n s - 1 \<and> sa_nalloc s' = sa_nalloc s)) \<and>
   (reachable h a \<and> deref h a = Some s \<and> \<not> (0 \<le> idx \<and> idx < sa_n s) \<longrightarrow>
      sarrayRemoveString h (Ptr a) idx = Some (NULL, h)) \<and>
   (reachable h a \<and> deref h a = Some s \<longrightarrow>
      (\<exists>s'. sarrayClear h (Ptr a) = Some (update h a s') \<and>
         sa_n s' = 0 \<and> sa_nalloc s' = sa_nalloc s))"
proof (intro conjI impI)
  assume "reachable h a"
  then show "\<exists>s. deref h a = Some s \<and> 0 \<le> sa_n s \<and> sa_n s \<le> sa_nalloc s"
    by (auto dest!: reachable_inv inv_atE simp: sa_inv_def)
next
  assume "sarrayCreate h0 n0 = (Ptr a0, h1)"
  from sarrayCreate_new[OF this]
  show "\<exists>s. deref h1 a0 = Some s \<and> sa_n s = 0 \<and> sa_nalloc s = (if n0 \<le> 0 then 50 else n0)"
    by auto
next
  assume A: "reachable h a \<and> deref h a = Some s \<and> (flag = L_INSERT \<or> flag = L_COPY)"
  then have inv: "sa_inv s" by (auto dest!: reachable_inv inv_atE)
  from A have d: "deref h a = Some s" and fl: "flag = L_INSERT \<or> flag = L_COPY" by auto
  from inv have "rd (sa_array (add_str s str)) (sa_n s) = Some (Ptr str)"
    by (auto simp: add_str_def rd_def sa_inv_def)
  with sarrayAddString_ok[OF d inv fl, of str]
  show "\<exists>s'. sarrayAddString h (Ptr a) (Ptr str) flag = Some (0, update h a s') \<and>
         sa_n s' = sa_n s + 1 \<and>
         sa_nalloc s' = (if sa_n s = sa_nalloc s then 2 * sa_nalloc s else sa_nalloc s) \<and>
         rd (sa_array s') (sa_n s) = Some (Ptr str)"
    by (intro exI[of _ "add_str s str"]) (simp add: add_str_def)
next
  assume A: "reachable h a \<and> deref h a = Some s \<and> 0 \<le> idx \<and> idx < sa_n s"
  then have inv: "sa_inv s" by (auto dest!: reachable_inv inv_atE)
  from A have d: "deref h a = Some s" and i: "0 \<le> idx" "idx < sa_n s" by auto
  from sarrayRemoveString_ok[OF d inv i] obtain arr where
    "sarrayRemoveString h (Ptr a) idx =
       Some (sa_array s ! nat idx, update h a (s\<lparr>sa_array := arr, sa_n := sa_n s - 1\<rparr>))"
    by blast
  then show "\<exists>s'. sarrayRemoveString h (Ptr a) idx = Some (sa_array s ! nat idx, update h a s') \<and>
         sa_n s' = sa_n s - 1 \<and> sa_nalloc s' = sa_nalloc s"
    by (intro exI[of _ "s\<lparr>sa_array := arr, sa_n := sa_n s - 1\<rparr>"]) simp
next
  assume "reachable h a \<and> deref h a = Some s \<and> \<not> (0 \<le> idx \<and> idx < sa_n s)"
  then show "sarrayRemoveString h (Ptr a) idx = Some (NULL, h)"
    by (auto simp: sarrayRemoveString_def Let_def)
next
  assume A: "reachable h a \<and> deref h a = Some s"
  then have inv: "sa_inv s" by (auto dest!: reachable_inv inv_atE)
  from A have d: "deref h a = Some s" by simp
  from sarrayClear_ok[OF d inv] obtain arr where
    "sarrayClear h (Ptr a) = Some (update h a (s\<lparr>sa_array := arr, sa_n := 0\<rparr>))" by blast
  then show "\<exists>s'. sarrayClear h (Ptr a) = Some (update h a s') \<and>
         sa_n s' = 0 \<and> sa_nalloc s' = sa_nalloc s"
    by (intro exI[of _ "s\<lparr>sa_array := arr, sa_n := 0\<rparr>"]) simp
qed
theorem sarray_count_within_capacity_witness:
  "reachable [Some \<lparr>sa_nalloc = 1, sa_n = 1, sa_refcount = 1, sa_array = [Ptr ''a'']\<rparr>] 0 \<and>
   (\<exists>s. deref [Some \<lparr>sa_nalloc = 1, sa_n = 1, sa_refcount = 1, sa_array = [Ptr ''a'']\<rparr>] 0 = Some s \<and>
        0 \<le> sa_n s \<and> sa_n s \<le> sa_nalloc s) \<and>
   (\<exists>s. deref (snd (sarrayCreate [] 1)) 0 = Some s \<and> sa_n s = 0 \<and> sa_nalloc s = 1) \<and>
   (\<exists>s'. sarrayAddString [Some \<lparr>sa_nalloc = 1, sa_n = 1, sa_refcount = 1, sa_array = [Ptr ''a'']\<rparr>]
            (Ptr 0) (Ptr ''b'') L_COPY =
          Some (0, update [Some \<lparr>sa_nalloc = 1, sa_n = 1, sa_refcount = 1, sa_array = [Ptr ''a'']\<rparr>] 0 s') \<and>
        sa_n s' = 2 \<and> sa_nalloc s' = 2 \<and> rd (sa_array s') 1 = Some (Ptr ''b'')) \<and>
   (\<exists>s'. sarrayRemoveString [Some \<lparr>sa_nalloc = 1, sa_n = 1, sa_refcount = 1, sa_array = [Ptr ''a'']\<rparr>]
            (Ptr 0) 0 =
          Some (Ptr ''a'',
            update [Some \<lparr>sa_nalloc = 1, sa_n = 1, sa_refcount = 1, sa_array = [Ptr ''a'']\<rparr>] 0 s') \<and>
        sa_n s' = 0 \<and> sa_nalloc s' = 1) \<and>
   sarrayRemoveString [Some \<lparr>sa_nalloc = 1, sa_n = 1, sa_refcount = 1, sa_array = [Ptr ''a'']\<rparr>]
       (Ptr 0) 1 =
     Some (NULL, [Some \<lparr>sa_nalloc = 1, sa_n = 1, sa_refcount = 1, sa_array = [Ptr ''a'']\<rparr>]) \<and>
   (\<exists>s'. sarrayClear [Some \<lparr>sa_nalloc = 1, sa_n = 1, sa_refcount = 1, sa_array = [Ptr ''a'']\<rparr>] (Ptr 0) =
          Some (update [Some \<lparr>sa_nalloc = 1, sa_n = 1, sa_refcount = 1, sa_array = [Ptr ''a'']\<rparr>] 0 s') \<and>
        sa_n s' = 0 \<and> sa_nalloc s' = 1)"
proof -
  let ?c = "\<lparr>sa_nalloc = 1, sa_n = 0, sa_refcount = 1, sa_array = [NULL]\<rparr>"
  let ?s = "\<lparr>sa_nalloc = 1, sa_n = 1, sa_refcount = 1, sa_array = [Ptr ''a'']\<rparr>"
  have c: "sarrayCreate [] 1 = (Ptr 0, [Some ?c])"
    by code_simp
  have a: "sarrayAddString [Some ?c] (Ptr 0) (Ptr ''a'') L_COPY = Some (0, [Some ?s])"
    by code_simp
  have r: "reachable [Some ?s] 0"
    by (rule reachable.add[OF reachable.created[OF c] a])
  have d: "deref [Some ?s] 0 = Some ?s"
    by (simp add: deref_def)
  note t1 = sarray_count_within_capacity[where h = "[Some ?s]" and a = 0 and s = ?s
      and flag = L_COPY and str = "''b''" and idx = 0 and h0 = "[]" and ?n0.0 = 1 and ?a0.0 = 0
      and ?h1.0 = "[Some ?c]"]
  note t2 = sarray_count_within_capacity[where h = "[Some ?s]" and a = 0 and s = ?s
      and idx = 1, THEN conjunct2, THEN conjunct2, THEN conjunct2, THEN conjunct2, THEN conjunct1]
  from t1 t2 r d c show ?thesis
    by simp
qed
section \<open>Joining an empty array\<close>
text \<open>
  Claim C10. For an array of length zero, \<^verbatim>\<open>sarrayToString\<close> and \<^verbatim>\<open>sarrayToStringRange\<close>
  return NULL (the error "first not valid") for every flag, every first index and every
  count: index 0 is already outside the array. And \<^verbatim>\<open>sarrayToString(sa, flag)\<close> is
  \<^verbatim>\<open>sarrayToStringRange(sa, 0, 0, flag)\<close> for every handle.
\<close>
theorem sarrayToString_empty_is_error:
  "(deref h a = Some s \<and> sa_n s = 0 \<longrightarrow>
      sarrayToString h (Ptr a) addnlflag = Some NULL \<and>
      sarrayToStringRange h (Ptr a) first nstrings addnlflag = Some NULL) \<and>
   sarrayToString h sa addnlflag = sarrayToStringRange h sa 0 0 addnlflag"
  by (cases sa) (auto simp: sarrayToString_def sarrayToStringRange_def sarrayGetCount_def)
theorem sarrayToString_empty_is_error_witness:
  "deref (snd (sarrayCreate [] 0)) 0 =
     Some \<lparr>sa_nalloc = 50, sa_n = 0, sa_refcount = 1, sa_array = replicate 50 NULL\<rparr> \<and>
   sarrayToString (snd (sarrayCreate [] 0)) (Ptr 0) 1 = Some NULL \<and>
   sarrayToStringRange (snd (sarrayCreate [] 0)) (Ptr 0) 0 0 2 = Some NULL"
proof -
  have d: "deref (snd (sarrayCreate [] 0)) 0 =
     Some \<lparr>sa_nalloc = 50, sa_n = 0, sa_refcount = 1, sa_array = replicate 50 NULL\<rparr>"
    by (simp add: sarrayCreate_def deref_def INITIAL_PTR_ARRAYSIZE_def)
  from d sarrayToString_empty_is_error[where h = "snd (sarrayCreate [] 0)" and a = 0
      and s = "\<lparr>sa_nalloc = 50, sa_n = 0, sa_refcount = 1, sa_array = replicate 50 NULL\<rparr>"
      and addnlflag = 1 and first = 0 and nstrings = 0]
    sarrayToString_empty_is_error[where h = "snd (sarrayCreate [] 0)" and a = 0
      and s = "\<lparr>sa_nalloc = 50, sa_n = 0, sa_refcount = 1, sa_array = replicate 50 NULL\<rparr>"
      and addnlflag = 2 and first = 0 and nstrings = 0]
  show ?thesis by simp
qed
section \<open>Strings of a well-formed array; concatenation; reference counts\<close>
lemma sa_wf_inv: "sa_wf s \<Longrightarrow> sa_inv s"
  by (simp add: sa_wf_def)
lemma length_sa_strings: "sa_inv s \<Longrightarrow> length (sa_strings s) = nat (sa_n s)"
  by (auto simp: sa_strings_def sa_inv_def)
lemma sa_wf_slot:
  assumes "sa_wf s" "0 \<le> i" "i < sa_n s"
  shows "sa_array s ! nat i = Ptr (sa_strings s ! nat i)"
proof -
  from assms have l: "nat i < length (take (nat (sa_n s)) (sa_array s))"
    by (auto simp: sa_wf_def sa_inv_def)
  with assms have "take (nat (sa_n s)) (sa_array s) ! nat i \<noteq> NULL"
    by (auto simp: sa_wf_def list_all_length)
  with l show ?thesis
    by (cases "sa_array s ! nat i") (auto simp: sa_strings_def)
qed
lemma add_str_sel:
  "sa_n (add_str s str) = sa_n s + 1"
  "sa_refcount (add_str s str) = sa_refcount s"
  "sa_nalloc (add_str s str) = (if sa_n s = sa_nalloc s then 2 * sa_nalloc s else sa_nalloc s)"
  by (simp_all add: add_str_def)
lemma add_str_wf: "sa_wf s \<Longrightarrow> sa_wf (add_str s str)"
  by (auto simp: sa_wf_def sa_inv_def add_str_def list_all_length nth_list_update nth_append)
lemma add_str_strings: "sa_inv s \<Longrightarrow> sa_strings (add_str s str) = sa_strings s @ [str]"
  by (auto simp: sa_strings_def sa_inv_def add_str_def take_Suc_conv_app_nth nat_add_distrib
      intro!: nth_equalityI)
lemma sarrayGetString_nocopy:
  assumes "deref h a = Some s" "sa_wf s" "0 \<le> i" "i < sa_n s"
  shows "sarrayGetString h (Ptr a) i L_NOCOPY = Some (Ptr (sa_strings s ! nat i))"
proof -
  from assms have "rd (sa_array s) i = Some (sa_array s ! nat i)"
    by (intro rd_Some) (auto simp: sa_wf_def sa_inv_def)
  with assms sa_wf_slot[OF assms(2-4)] show ?thesis
    by (simp add: sarrayGetString_def L_NOCOPY_def L_COPY_def)
qed
section \<open>Concatenation: duplicates of the strings\<close>
lemma obj_at_put: "obj_at (put xs a v) b = (if b = a \<and> a < length xs then Some v else obj_at xs b)"
  by (auto simp: obj_at_def put_def)
lemma length_put: "length (put xs a v) = length xs"
  by (simp add: put_def)
lemma put_put: "put (put xs a v) a w = put xs a w"
  by (simp add: put_def)
lemma obj_at_less: "obj_at xs a = Some v \<Longrightarrow> a < length xs"
  by (auto simp: obj_at_def split: if_splits)
lemma obj_at_append: "obj_at xs a = Some v \<Longrightarrow> obj_at (xs @ ys) a = Some v"
  by (auto simp: obj_at_def nth_append split: if_splits)
lemma obj_at_new: "obj_at (xs @ [y]) (length xs) = y"
  by (simp add: obj_at_def)

lemma add_obj_sel:
  "so_n (add_obj s q) = so_n s + 1"
  "so_refcount (add_obj s q) = so_refcount s"
  "so_nalloc (add_obj s q) = (if so_n s = so_nalloc s then 2 * so_nalloc s else so_nalloc s)"
  by (simp_all add: add_obj_def)
lemma add_obj_inv: "so_inv s \<Longrightarrow> so_inv (add_obj s q)"
  by (auto simp: so_inv_def add_obj_def)
lemma add_obj_slots: "so_inv s \<Longrightarrow> so_slots (add_obj s q) = so_slots s @ [Ptr q]"
  by (auto simp: so_slots_def so_inv_def add_obj_def take_Suc_conv_app_nth nat_add_distrib
      intro!: nth_equalityI)
lemma length_so_slots: "so_inv s \<Longrightarrow> length (so_slots s) = nat (so_n s)"
  by (auto simp: so_slots_def so_inv_def)

lemma sarrayAddString_obj_copy:
  assumes d: "obj_at (m_sarray m) a = Some s" and inv: "so_inv s"
    and q: "obj_at (m_string m) q = Some x"
  shows "sarrayAddString_obj m (Ptr a) (Ptr q) L_COPY =
     Some (0, \<lparr>m_sarray = put (m_sarray m) a (add_obj s (length (m_string m))),
               m_string = m_string m @ [Some x]\<rparr>)"
proof (cases "so_n s = so_nalloc s")
  case True
  from d have al: "a < length (m_sarray m)" by (rule obj_at_less)
  from inv True have r: "reallocNew (so_array s) (so_nalloc s) (2 * so_nalloc s) =
      Some (so_array s @ replicate (nat (so_nalloc s)) NULL)"
    by (simp add: reallocNew_def so_inv_def min_def)
  show ?thesis using d inv q True al r
    by (cases s; cases m) (auto simp: sarrayAddString_obj_def sarrayGetCount_obj_def
        sarrayExtendArray_obj_def obj_at_put wr_def so_inv_def stringNew_obj_def L_INSERT_def
        L_COPY_def put_put add_obj_def)
next
  case False
  show ?thesis using d inv q False
    by (cases s; cases m) (auto simp: sarrayAddString_obj_def sarrayGetCount_obj_def wr_def
        so_inv_def stringNew_obj_def L_INSERT_def L_COPY_def add_obj_def)
qed

lemma sarrayAddString_obj_insert:
  assumes d: "obj_at (m_sarray m) a = Some s" and inv: "so_inv s"
  shows "sarrayAddString_obj m (Ptr a) (Ptr q) L_INSERT =
     Some (0, \<lparr>m_sarray = put (m_sarray m) a (add_obj s q), m_string = m_string m\<rparr>)"
proof (cases "so_n s = so_nalloc s")
  case True
  from d have al: "a < length (m_sarray m)" by (rule obj_at_less)
  from inv True have r: "reallocNew (so_array s) (so_nalloc s) (2 * so_nalloc s) =
      Some (so_array s @ replicate (nat (so_nalloc s)) NULL)"
    by (simp add: reallocNew_def so_inv_def min_def)
  show ?thesis using d inv True al r
    by (cases s; cases m) (auto simp: sarrayAddString_obj_def sarrayGetCount_obj_def
        sarrayExtendArray_obj_def obj_at_put wr_def so_inv_def L_INSERT_def
        L_COPY_def put_put add_obj_def)
next
  case False
  show ?thesis using d inv False
    by (cases s; cases m) (auto simp: sarrayAddString_obj_def sarrayGetCount_obj_def wr_def
        so_inv_def L_INSERT_def L_COPY_def add_obj_def)
qed


lemma string_at_ext:
  "m_string m' = m_string m @ ys \<Longrightarrow> string_at m p = Some x \<Longrightarrow> string_at m' p = Some x"
  by (cases p) (auto simp: string_at_def obj_at_append)
lemma so_wf_ext:
  assumes "m_string m' = m_string m @ ys" "so_wf m s"
  shows "so_wf m' s" "so_strings m' s = so_strings m s"
proof -
  have a: "\<And>p. p \<in> set (so_slots s) \<Longrightarrow> string_at m' p = string_at m p"
    using assms string_at_ext[OF assms(1)] by (auto simp: so_wf_def list_all_iff)
  from assms a show "so_wf m' s" by (auto simp: so_wf_def list_all_iff)
  from a show "so_strings m' s = so_strings m s" by (simp add: so_strings_def)
qed
lemma so_wf_inv: "so_wf m s \<Longrightarrow> so_inv s"
  by (simp add: so_wf_def)
lemma length_so_strings: "so_inv s \<Longrightarrow> length (so_strings m s) = nat (so_n s)"
  by (simp add: so_strings_def length_so_slots)
lemma add_obj_wf:
  "so_wf m s \<Longrightarrow> string_at m (Ptr q) = Some x \<Longrightarrow> so_wf m (add_obj s q)"
  by (simp add: so_wf_def add_obj_inv add_obj_slots)
lemma add_obj_strings:
  "so_inv s \<Longrightarrow> string_at m (Ptr q) = Some x \<Longrightarrow> so_strings m (add_obj s q) = so_strings m s @ [x]"
  by (simp add: so_strings_def add_obj_slots)
lemma so_wf_slot:
  assumes "so_wf m s" "0 \<le> i" "i < so_n s"
  shows "\<exists>q. so_array s ! nat i = Ptr q \<and> obj_at (m_string m) q = Some (so_strings m s ! nat i)"
proof -
  from assms have l: "nat i < length (so_slots s)"
    by (auto simp: so_wf_def length_so_slots)
  with assms have "string_at m (so_slots s ! nat i) \<noteq> None"
    by (auto simp: so_wf_def list_all_length)
  moreover from assms have "so_slots s ! nat i = so_array s ! nat i"
    by (auto simp: so_slots_def)
  ultimately show ?thesis using l
    by (cases "so_array s ! nat i") (auto simp: so_strings_def string_at_def)
qed
lemma sarrayGetString_obj_nocopy:
  assumes "obj_at (m_sarray m) a = Some s" "so_inv s" "0 \<le> i" "i < so_n s"
  shows "sarrayGetString_obj m (Ptr a) i L_NOCOPY = Some (so_array s ! nat i, m)"
  using assms
  by (auto simp: sarrayGetString_obj_def rd_def so_inv_def L_NOCOPY_def L_COPY_def)

lemma concat_loop_aux:
  assumes "sa1 = Ptr a1" "sa2 = Ptr a2"
    and "obj_at (m_sarray m) a1 = Some s1" "so_wf m s1"
    and "obj_at (m_sarray m) a2 = Some s2" "so_wf m s2"
    and "0 \<le> i" "i \<le> n" "n \<le> so_n s2"
  shows "\<exists>m' s1'. concat_loop m sa1 sa2 i n = Some m' \<and>
     obj_at (m_sarray m') a1 = Some s1' \<and> so_inv s1' \<and>
     so_n s1' = so_n s1 + (n - i) \<and> so_refcount s1' = so_refcount s1 \<and>
     so_slots s1' = so_slots s1 @
        map Ptr [length (m_string m) ..< length (m_string m) + nat (n - i)] \<and>
     m_string m' = m_string m @ map Some (drop (nat i) (take (nat n) (so_strings m s2))) \<and>
     (\<forall>b. b \<noteq> a1 \<longrightarrow> obj_at (m_sarray m') b = obj_at (m_sarray m) b)"
  using assms
proof (induction m sa1 sa2 i n arbitrary: s1 s2 rule: concat_loop.induct)
  case (1 m sa1 sa2 i n)
  note p = "1.prems"
  show ?case
  proof (cases "i < n")
    case False
    with p have "i = n" by simp
    with p show ?thesis
      by (subst concat_loop.simps) (simp add: so_wf_inv length_so_strings)
  next
    case True
    let ?L = "length (m_string m)"
    let ?x = "so_strings m s2 ! nat i"
    let ?t1 = "add_obj s1 ?L"
    let ?m1 = "\<lparr>m_sarray = put (m_sarray m) a1 ?t1, m_string = m_string m @ [Some ?x]\<rparr>"
    let ?t2 = "if a1 = a2 then ?t1 else s2"
    from p True obtain q where q: "so_array s2 ! nat i = Ptr q"
        "obj_at (m_string m) q = Some ?x"
      using so_wf_slot[of m s2 i] by auto
    from p True q have g: "sarrayGetString_obj m sa2 i L_NOCOPY = Some (Ptr q, m)"
      using sarrayGetString_obj_nocopy[of m a2 s2 i] by (simp add: so_wf_inv)
    from p q have ad: "sarrayAddString_obj m sa1 (Ptr q) L_COPY = Some (0, ?m1)"
      using sarrayAddString_obj_copy[of m a1 s1 q ?x] by (simp add: so_wf_inv)
    have c: "concat_loop m sa1 sa2 i n = concat_loop ?m1 sa1 sa2 (i + 1) n"
      using True g ad by (subst concat_loop.simps) simp
    from p have al: "a1 < length (m_sarray m)" by (auto dest: obj_at_less)
    have e: "m_string ?m1 = m_string m @ [Some ?x]" by simp
    have sL: "string_at ?m1 (Ptr ?L) = Some ?x" by (simp add: string_at_def obj_at_new)
    have w1: "so_wf ?m1 ?t1"
      using so_wf_ext(1)[OF e p(4)] sL by (rule add_obj_wf)
    have d1: "obj_at (m_sarray ?m1) a1 = Some ?t1" using al by (simp add: obj_at_put)
    have d2: "obj_at (m_sarray ?m1) a2 = Some ?t2" using al p by (simp add: obj_at_put)
    have w2: "so_wf ?m1 ?t2" using w1 so_wf_ext(1)[OF e p(6)] by (cases "a1 = a2") simp_all
    have n2: "n \<le> so_n ?t2" using p by (auto simp: add_obj_sel)
    have st: "take (nat n) (so_strings ?m1 ?t2) = take (nat n) (so_strings m s2)"
    proof (cases "a1 = a2")
      case True
      with p have eq: "s2 = s1" by simp
      have "so_strings ?m1 ?t1 = so_strings ?m1 s1 @ [?x]"
        using p sL by (intro add_obj_strings) (auto simp: so_wf_inv)
      also have "so_strings ?m1 s1 = so_strings m s1" by (rule so_wf_ext(2)[OF e p(4)])
      finally show ?thesis using True eq p
        by (simp add: length_so_strings so_wf_inv)
    next
      case False
      then show ?thesis using so_wf_ext(2)[OF e p(6)] by simp
    qed
    have "\<exists>m' s1'. concat_loop ?m1 sa1 sa2 (i + 1) n = Some m' \<and>
       obj_at (m_sarray m') a1 = Some s1' \<and> so_inv s1' \<and>
       so_n s1' = so_n ?t1 + (n - (i + 1)) \<and> so_refcount s1' = so_refcount ?t1 \<and>
       so_slots s1' = so_slots ?t1 @
          map Ptr [length (m_string ?m1) ..< length (m_string ?m1) + nat (n - (i + 1))] \<and>
       m_string m' = m_string ?m1 @
          map Some (drop (nat (i + 1)) (take (nat n) (so_strings ?m1 ?t2))) \<and>
       (\<forall>b. b \<noteq> a1 \<longrightarrow> obj_at (m_sarray m') b = obj_at (m_sarray ?m1) b)"
      using True p g ad
      by (intro "1.IH"[OF True _ _ _ _ p(1) p(2) d1 w1 d2 w2 _ _ n2, of "(Ptr q, m)" "Ptr q" m "(0, ?m1)" 0])
         auto
    then obtain m' s1' where r: "concat_loop ?m1 sa1 sa2 (i + 1) n = Some m'"
       "obj_at (m_sarray m') a1 = Some s1'" "so_inv s1'"
       "so_n s1' = so_n ?t1 + (n - (i + 1))" "so_refcount s1' = so_refcount ?t1"
       "so_slots s1' = so_slots ?t1 @
          map Ptr [length (m_string ?m1) ..< length (m_string ?m1) + nat (n - (i + 1))]"
       "m_string m' = m_string ?m1 @
          map Some (drop (nat (i + 1)) (take (nat n) (so_strings ?m1 ?t2)))"
       "\<forall>b. b \<noteq> a1 \<longrightarrow> obj_at (m_sarray m') b = obj_at (m_sarray ?m1) b"
      by blast
    from p True have li: "nat i < length (take (nat n) (so_strings m s2))"
      by (auto simp: length_so_strings so_wf_inv)
    have dr: "drop (nat i) (take (nat n) (so_strings m s2)) =
        ?x # drop (nat (i + 1)) (take (nat n) (so_strings m s2))"
      using Cons_nth_drop_Suc[OF li] li p(7) by (simp add: nat_add_distrib)
    from True have k: "nat (n - i) = Suc (nat (n - (i + 1)))" by simp
    have u: "[?L ..< ?L + nat (n - i)] = ?L # [Suc ?L ..< Suc ?L + nat (n - (i + 1))]"
      unfolding k by (simp add: upt_conv_Cons)
    have sl: "so_slots s1' = so_slots s1 @ map Ptr [?L ..< ?L + nat (n - i)]"
      using r(6) p(4) unfolding u by (simp add: add_obj_slots so_wf_inv)
    have ms: "m_string m' = m_string m @ map Some (drop (nat i) (take (nat n) (so_strings m s2)))"
      using r(7) st dr by simp
    have fr: "\<forall>b. b \<noteq> a1 \<longrightarrow> obj_at (m_sarray m') b = obj_at (m_sarray m) b"
      using r(8) by (simp add: obj_at_put)
    show ?thesis
      using c r(1-5) sl ms fr
      by (intro exI[of _ m'] exI[of _ s1']) (simp add: add_obj_sel)
  qed
qed


lemma obj_at_append_new: "k < length ys \<Longrightarrow> obj_at (xs @ ys) (length xs + k) = ys ! k"
  by (simp add: obj_at_def nth_append)
lemma string_at_less: "string_at m p \<noteq> None \<Longrightarrow> \<exists>q. p = Ptr q \<and> q < length (m_string m)"
  by (cases p) (auto simp: string_at_def obj_at_def split: if_splits)
lemma string_at_poke: "q' \<noteq> q \<Longrightarrow> string_at (poke m q v) (Ptr q') = string_at m (Ptr q')"
  by (simp add: string_at_def poke_def obj_at_def)
lemma so_strings_new:
  assumes "m_string m' = m_string m @ map Some ys"
  shows "map (\<lambda>p. case string_at m' p of None \<Rightarrow> [] | Some x \<Rightarrow> x)
           (map Ptr [length (m_string m) ..< length (m_string m) + length ys]) = ys"
  using assms by (auto intro!: nth_equalityI simp: string_at_def obj_at_append_new)
lemma appended_duplicates:
  assumes sl: "so_slots s1' = so_slots s1 @
        map Ptr [length (m_string m) ..< length (m_string m) + length ys]"
    and ms: "m_string m' = m_string m @ map Some ys"
    and w: "so_wf m s1" and i: "so_inv s1'" and n: "so_n s1' = so_n s1 + int (length ys)"
  shows "so_wf m' s1'" "so_strings m' s1' = so_strings m s1 @ ys"
    "drop (nat (so_n s1)) (so_slots s1') =
        map Ptr [length (m_string m) ..< length (m_string m) + length ys]"
proof -
  let ?L = "length (m_string m)"
  have a: "\<And>p. p \<in> set (so_slots s1) \<Longrightarrow> string_at m' p \<noteq> None"
    using so_wf_ext(1)[OF ms w] by (auto simp: so_wf_def list_all_iff)
  have b: "\<And>k. k < length ys \<Longrightarrow> string_at m' (Ptr (?L + k)) \<noteq> None"
    using ms by (simp add: string_at_def obj_at_append_new)
  have "list_all (\<lambda>p. string_at m' p \<noteq> None) (map Ptr [?L ..< ?L + length ys])"
    using b by (auto simp: list_all_iff) (metis add_diff_inverse_nat nat_add_left_cancel_less not_le)
  with a i sl show "so_wf m' s1'" by (auto simp: so_wf_def list_all_iff)
  have "so_strings m' s1' = so_strings m' s1 @ ys"
    using so_strings_new[OF ms] by (simp add: so_strings_def sl)
  then show "so_strings m' s1' = so_strings m s1 @ ys"
    using so_wf_ext(2)[OF ms w] by simp
  from w have "length (so_slots s1) = nat (so_n s1)" by (simp add: length_so_slots so_wf_inv)
  then show "drop (nat (so_n s1)) (so_slots s1') = map Ptr [?L ..< ?L + length ys]"
    by (simp add: sl)
qed
lemma poke_old_keeps_new:
  assumes ms: "m_string m' = m_string m @ map Some ys" and q: "q < length (m_string m)"
  shows "map (\<lambda>p. case string_at (poke m' q v) p of None \<Rightarrow> [] | Some x \<Rightarrow> x)
           (map Ptr [length (m_string m) ..< length (m_string m) + length ys]) = ys"
proof -
  have "map (\<lambda>p. case string_at (poke m' q v) p of None \<Rightarrow> [] | Some x \<Rightarrow> x)
           (map Ptr [length (m_string m) ..< length (m_string m) + length ys]) =
        map (\<lambda>p. case string_at m' p of None \<Rightarrow> [] | Some x \<Rightarrow> x)
           (map Ptr [length (m_string m) ..< length (m_string m) + length ys])"
    using q by (auto simp: string_at_poke)
  also have "\<dots> = ys" by (rule so_strings_new[OF ms])
  finally show ?thesis .
qed
lemma poke_new_keeps_old:
  assumes w: "so_wf m s" and q: "length (m_string m) \<le> q"
  shows "so_strings (poke m' q v) s = so_strings m' s"
proof -
  have "\<And>p. p \<in> set (so_slots s) \<Longrightarrow> string_at (poke m' q v) p = string_at m' p"
  proof -
    fix p assume "p \<in> set (so_slots s)"
    with w have "string_at m p \<noteq> None" by (auto simp: so_wf_def list_all_iff)
    then obtain q' where "p = Ptr q'" "q' < length (m_string m)"
      using string_at_less by blast
    with q show "string_at (poke m' q v) p = string_at m' p"
      by (simp add: string_at_poke)
  qed
  then show ?thesis by (simp add: so_strings_def)
qed

text \<open>
  Claim C8, as amended. For two distinct instances \<open>dst \<noteq> src\<close> whose live slots hold
  strings, \<^verbatim>\<open>sarrayConcatenate(dst, src)\<close> returns 0 and

  \<^item> leaves the struct of \<open>src\<close> (its count and its slots), every other instance and every
    string object that existed as they were, so every element of \<open>src\<close> is unchanged;
  \<^item> raises the count of \<open>dst\<close> by the count of \<open>src\<close>, keeping the old slots of \<open>dst\<close>;
  \<^item> allocates one new string object for each element of \<open>src\<close>, with the same bytes,
    and stores their addresses, in order, in the appended slots of \<open>dst\<close>: the appended
    slots are pairwise different and different from every live slot of \<open>src\<close> and of the
    old \<open>dst\<close>;
  \<^item> so the appended elements are independent duplicates: overwriting or freeing a string
    of \<open>src\<close> afterwards leaves the appended elements of \<open>dst\<close> as they are, and
    overwriting or freeing an appended string leaves the elements of \<open>src\<close> as they are.

  When both handles are one instance, the array is appended to itself: its count doubles.
\<close>

theorem sarrayConcatenate_appends_duplicates:
  "(a1 \<noteq> a2 \<and> obj_at (m_sarray m) a1 = Some s1 \<and> so_wf m s1 \<and>
    obj_at (m_sarray m) a2 = Some s2 \<and> so_wf m s2 \<longrightarrow>
      (\<exists>m' s1'. sarrayConcatenate m (Ptr a1) (Ptr a2) = Some (0, m') \<and>
         obj_at (m_sarray m') a2 = Some s2 \<and>
         (\<forall>b. b \<noteq> a1 \<longrightarrow> obj_at (m_sarray m') b = obj_at (m_sarray m) b) \<and>
         take (length (m_string m)) (m_string m') = m_string m \<and>
         so_wf m' s2 \<and> so_strings m' s2 = so_strings m s2 \<and>
         obj_at (m_sarray m') a1 = Some s1' \<and> so_wf m' s1' \<and>
         so_n s1' = so_n s1 + so_n s2 \<and>
         so_refcount s1' = so_refcount s1 \<and>
         take (nat (so_n s1)) (so_slots s1') = so_slots s1 \<and>
         drop (nat (so_n s1)) (so_slots s1') =
           map Ptr [length (m_string m) ..< length (m_string m) + nat (so_n s2)] \<and>
         length (m_string m') = length (m_string m) + nat (so_n s2) \<and>
         so_strings m' s1' = so_strings m s1 @ so_strings m s2 \<and>
         distinct (drop (nat (so_n s1)) (so_slots s1')) \<and>
         set (drop (nat (so_n s1)) (so_slots s1')) \<inter> (set (so_slots s2) \<union> set (so_slots s1)) = {} \<and>
         (\<forall>q v. Ptr q \<in> set (so_slots s2) \<longrightarrow>
            drop (nat (so_n s1)) (so_strings (poke m' q v) s1') = so_strings m s2) \<and>
         (\<forall>q v. Ptr q \<in> set (drop (nat (so_n s1)) (so_slots s1')) \<longrightarrow>
            so_strings (poke m' q v) s2 = so_strings m s2))) \<and>
   (obj_at (m_sarray m) a = Some s \<and> so_wf m s \<longrightarrow>
      (\<exists>m' s'. sarrayConcatenate m (Ptr a) (Ptr a) = Some (0, m') \<and>
         obj_at (m_sarray m') a = Some s' \<and> so_wf m' s' \<and>
         so_n s' = 2 * so_n s \<and>
         so_strings m' s' = so_strings m s @ so_strings m s))"
proof (intro conjI impI)
  assume A: "a1 \<noteq> a2 \<and> obj_at (m_sarray m) a1 = Some s1 \<and> so_wf m s1 \<and>
    obj_at (m_sarray m) a2 = Some s2 \<and> so_wf m s2"
  let ?L = "length (m_string m)"
  let ?ys = "so_strings m s2"
  from A have n0: "0 \<le> so_n s2" by (auto simp: so_wf_def so_inv_def)
  from A have l2: "length ?ys = nat (so_n s2)"
    by (auto simp: length_so_strings so_wf_inv)
  from A have l1: "length (so_slots s1) = nat (so_n s1)"
    by (auto simp: length_so_slots so_wf_inv)
  from A have "\<exists>m' s1'. concat_loop m (Ptr a1) (Ptr a2) 0 (so_n s2) = Some m' \<and>
     obj_at (m_sarray m') a1 = Some s1' \<and> so_inv s1' \<and>
     so_n s1' = so_n s1 + (so_n s2 - 0) \<and> so_refcount s1' = so_refcount s1 \<and>
     so_slots s1' = so_slots s1 @ map Ptr [?L ..< ?L + nat (so_n s2 - 0)] \<and>
     m_string m' = m_string m @ map Some (drop (nat 0) (take (nat (so_n s2)) ?ys)) \<and>
     (\<forall>b. b \<noteq> a1 \<longrightarrow> obj_at (m_sarray m') b = obj_at (m_sarray m) b)"
    using n0 by (intro concat_loop_aux) auto
  then obtain m' s1' where r: "concat_loop m (Ptr a1) (Ptr a2) 0 (so_n s2) = Some m'"
     "obj_at (m_sarray m') a1 = Some s1'" "so_inv s1'"
     "so_n s1' = so_n s1 + so_n s2" "so_refcount s1' = so_refcount s1"
     "so_slots s1' = so_slots s1 @ map Ptr [?L ..< ?L + length ?ys]"
     "m_string m' = m_string m @ map Some ?ys"
     "\<forall>b. b \<noteq> a1 \<longrightarrow> obj_at (m_sarray m') b = obj_at (m_sarray m) b"
    using l2 by auto
  from A have w1: "so_wf m s1" and w2: "so_wf m s2" by simp_all
  from r(4) n0 l2 have n': "so_n s1' = so_n s1 + int (length ?ys)" by simp
  note ap = appended_duplicates[OF r(6) r(7) w1 r(3) n']
  have c: "sarrayConcatenate m (Ptr a1) (Ptr a2) = Some (0, m')"
    using A r(1) by (simp add: sarrayConcatenate_def sarrayGetCount_obj_def)
  have d2: "obj_at (m_sarray m') a2 = Some s2" using A r(8) by simp
  have tk: "take ?L (m_string m') = m_string m" using r(7) by simp
  have tk1: "take (nat (so_n s1)) (so_slots s1') = so_slots s1" using r(6) l1 by simp
  have dr: "drop (nat (so_n s1)) (so_slots s1') = map Ptr [?L ..< ?L + nat (so_n s2)]"
    using ap(3) l2 by simp
  have len: "length (m_string m') = ?L + nat (so_n s2)" using r(7) l2 by simp
  have di: "distinct (drop (nat (so_n s1)) (so_slots s1'))"
    unfolding dr by (simp add: distinct_map inj_on_def)
  have old: "\<And>p. p \<in> set (so_slots s2) \<union> set (so_slots s1) \<Longrightarrow>
      \<exists>q. p = Ptr q \<and> q < ?L"
    using w1 w2 string_at_less[of m] by (auto simp: so_wf_def list_all_iff)
  have dj: "set (drop (nat (so_n s1)) (so_slots s1')) \<inter> (set (so_slots s2) \<union> set (so_slots s1)) = {}"
    unfolding dr using old by fastforce
  have p1: "\<forall>q v. Ptr q \<in> set (so_slots s2) \<longrightarrow>
            drop (nat (so_n s1)) (so_strings (poke m' q v) s1') = so_strings m s2"
  proof (intro allI impI)
    fix q v assume "Ptr q \<in> set (so_slots s2)"
    with old have q: "q < ?L" by auto
    have "drop (nat (so_n s1)) (so_strings (poke m' q v) s1') =
        map (\<lambda>p. case string_at (poke m' q v) p of None \<Rightarrow> [] | Some x \<Rightarrow> x)
          (drop (nat (so_n s1)) (so_slots s1'))"
      by (simp add: so_strings_def drop_map)
    also have "\<dots> = ?ys" unfolding ap(3) by (rule poke_old_keeps_new[OF r(7) q])
    finally show "drop (nat (so_n s1)) (so_strings (poke m' q v) s1') = so_strings m s2" .
  qed
  have p2: "\<forall>q v. Ptr q \<in> set (drop (nat (so_n s1)) (so_slots s1')) \<longrightarrow>
            so_strings (poke m' q v) s2 = so_strings m s2"
  proof (intro allI impI)
    fix q v assume "Ptr q \<in> set (drop (nat (so_n s1)) (so_slots s1'))"
    then have "?L \<le> q" unfolding dr by auto
    then show "so_strings (poke m' q v) s2 = so_strings m s2"
      using poke_new_keeps_old[OF w2, of q m' v] so_wf_ext(2)[OF r(7) w2] by simp
  qed
  show "\<exists>m' s1'. sarrayConcatenate m (Ptr a1) (Ptr a2) = Some (0, m') \<and>
         obj_at (m_sarray m') a2 = Some s2 \<and>
         (\<forall>b. b \<noteq> a1 \<longrightarrow> obj_at (m_sarray m') b = obj_at (m_sarray m) b) \<and>
         take (length (m_string m)) (m_string m') = m_string m \<and>
         so_wf m' s2 \<and> so_strings m' s2 = so_strings m s2 \<and>
         obj_at (m_sarray m') a1 = Some s1' \<and> so_wf m' s1' \<and>
         so_n s1' = so_n s1 + so_n s2 \<and>
         so_refcount s1' = so_refcount s1 \<and>
         take (nat (so_n s1)) (so_slots s1') = so_slots s1 \<and>
         drop (nat (so_n s1)) (so_slots s1') =
           map Ptr [length (m_string m) ..< length (m_string m) + nat (so_n s2)] \<and>
         length (m_string m') = length (m_string m) + nat (so_n s2) \<and>
         so_strings m' s1' = so_strings m s1 @ so_strings m s2 \<and>
         distinct (drop (nat (so_n s1)) (so_slots s1')) \<and>
         set (drop (nat (so_n s1)) (so_slots s1')) \<inter> (set (so_slots s2) \<union> set (so_slots s1)) = {} \<and>
         (\<forall>q v. Ptr q \<in> set (so_slots s2) \<longrightarrow>
            drop (nat (so_n s1)) (so_strings (poke m' q v) s1') = so_strings m s2) \<and>
         (\<forall>q v. Ptr q \<in> set (drop (nat (so_n s1)) (so_slots s1')) \<longrightarrow>
            so_strings (poke m' q v) s2 = so_strings m s2)"
    apply (intro exI[of _ m'] exI[of _ s1'] conjI)
    using c d2 r(8) tk so_wf_ext[OF r(7) w2] r(2) ap(1) r(4) r(5) tk1 dr len ap(2) di dj p1 p2
    by blast+
next
  assume A: "obj_at (m_sarray m) a = Some s \<and> so_wf m s"
  let ?L = "length (m_string m)"
  let ?ys = "so_strings m s"
  from A have n0: "0 \<le> so_n s" by (auto simp: so_wf_def so_inv_def)
  from A have l2: "length ?ys = nat (so_n s)"
    by (auto simp: length_so_strings so_wf_inv)
  from A have "\<exists>m' s1'. concat_loop m (Ptr a) (Ptr a) 0 (so_n s) = Some m' \<and>
     obj_at (m_sarray m') a = Some s1' \<and> so_inv s1' \<and>
     so_n s1' = so_n s + (so_n s - 0) \<and> so_refcount s1' = so_refcount s \<and>
     so_slots s1' = so_slots s @ map Ptr [?L ..< ?L + nat (so_n s - 0)] \<and>
     m_string m' = m_string m @ map Some (drop (nat 0) (take (nat (so_n s)) ?ys)) \<and>
     (\<forall>b. b \<noteq> a \<longrightarrow> obj_at (m_sarray m') b = obj_at (m_sarray m) b)"
    using n0 by (intro concat_loop_aux) auto
  then obtain m' s' where r: "concat_loop m (Ptr a) (Ptr a) 0 (so_n s) = Some m'"
     "obj_at (m_sarray m') a = Some s'" "so_inv s'"
     "so_n s' = so_n s + so_n s"
     "so_slots s' = so_slots s @ map Ptr [?L ..< ?L + length ?ys]"
     "m_string m' = m_string m @ map Some ?ys"
    using l2 by auto
  from A have w: "so_wf m s" by simp
  from r(4) n0 l2 have n': "so_n s' = so_n s + int (length ?ys)" by simp
  note ap = appended_duplicates[OF r(5) r(6) w r(3) n']
  have c: "sarrayConcatenate m (Ptr a) (Ptr a) = Some (0, m')"
    using A r(1) by (simp add: sarrayConcatenate_def sarrayGetCount_obj_def)
  show "\<exists>m' s'. sarrayConcatenate m (Ptr a) (Ptr a) = Some (0, m') \<and>
         obj_at (m_sarray m') a = Some s' \<and> so_wf m' s' \<and>
         so_n s' = 2 * so_n s \<and>
         so_strings m' s' = so_strings m s @ so_strings m s"
    using c r(2) ap(1) r(4) ap(2)
    by (intro exI[of _ m'] exI[of _ s']) simp
qed

theorem sarrayConcatenate_alias_counterexample:
  "sarrayGetCount_obj
     \<lparr>m_sarray = [Some \<lparr>so_nalloc = 1, so_n = 1, so_refcount = 1, so_array = [Ptr 0]\<rparr>],
      m_string = [Some ''x'']\<rparr> (Ptr 0) = Some 1 \<and>
   sarrayConcatenate
     \<lparr>m_sarray = [Some \<lparr>so_nalloc = 1, so_n = 1, so_refcount = 1, so_array = [Ptr 0]\<rparr>],
      m_string = [Some ''x'']\<rparr> (Ptr 0) (Ptr 0) =
     Some (0,
       \<lparr>m_sarray = [Some \<lparr>so_nalloc = 2, so_n = 2, so_refcount = 1, so_array = [Ptr 0, Ptr 1]\<rparr>],
        m_string = [Some ''x'', Some ''x'']\<rparr>) \<and>
   sarrayGetCount_obj
     \<lparr>m_sarray = [Some \<lparr>so_nalloc = 2, so_n = 2, so_refcount = 1, so_array = [Ptr 0, Ptr 1]\<rparr>],
      m_string = [Some ''x'', Some ''x'']\<rparr> (Ptr 0) = Some 2"
  by code_simp


theorem sarrayConcatenate_appends_duplicates_witness:
  "(\<exists>m' s1'. sarrayConcatenate
        \<lparr>m_sarray = [Some \<lparr>so_nalloc = 1, so_n = 1, so_refcount = 1, so_array = [Ptr 0]\<rparr>,
                     Some \<lparr>so_nalloc = 2, so_n = 2, so_refcount = 1, so_array = [Ptr 1, Ptr 2]\<rparr>],
         m_string = [Some ''a'', Some ''b'', Some ''c'']\<rparr>
        (Ptr 0) (Ptr 1) = Some (0, m') \<and>
      obj_at (m_sarray m') 1 =
        Some \<lparr>so_nalloc = 2, so_n = 2, so_refcount = 1, so_array = [Ptr 1, Ptr 2]\<rparr> \<and>
      take 3 (m_string m') = [Some ''a'', Some ''b'', Some ''c''] \<and>
      obj_at (m_sarray m') 0 = Some s1' \<and> so_n s1' = 3 \<and>
      so_slots s1' = [Ptr 0, Ptr 3, Ptr 4] \<and>
      so_strings m' s1' = [''a'', ''b'', ''c''] \<and>
      drop 1 (so_strings (poke m' 1 None) s1') = [''b'', ''c'']) \<and>
   (\<exists>m' s'. sarrayConcatenate
        \<lparr>m_sarray = [Some \<lparr>so_nalloc = 1, so_n = 1, so_refcount = 1, so_array = [Ptr 0]\<rparr>,
                     Some \<lparr>so_nalloc = 2, so_n = 2, so_refcount = 1, so_array = [Ptr 1, Ptr 2]\<rparr>],
         m_string = [Some ''a'', Some ''b'', Some ''c'']\<rparr>
        (Ptr 1) (Ptr 1) = Some (0, m') \<and>
      obj_at (m_sarray m') 1 = Some s' \<and> so_n s' = 4 \<and>
      so_strings m' s' = [''b'', ''c'', ''b'', ''c''])"
proof -
  let ?d = "\<lparr>so_nalloc = 1, so_n = 1, so_refcount = 1, so_array = [Ptr 0]\<rparr>"
  let ?c = "\<lparr>so_nalloc = 2, so_n = 2, so_refcount = 1, so_array = [Ptr 1, Ptr 2]\<rparr>"
  let ?m = "\<lparr>m_sarray = [Some ?d, Some ?c], m_string = [Some ''a'', Some ''b'', Some ''c'']\<rparr>"
  have w: "so_wf ?m ?d" "so_wf ?m ?c"
    by (simp_all add: so_wf_def so_inv_def so_slots_def string_at_def obj_at_def)
  have d: "obj_at (m_sarray ?m) 0 = Some ?d" "obj_at (m_sarray ?m) 1 = Some ?c"
    by (simp_all add: obj_at_def)
  have s: "so_strings ?m ?d = [''a'']" "so_strings ?m ?c = [''b'', ''c'']"
    by (simp_all add: so_strings_def so_slots_def string_at_def obj_at_def)
  have sl2: "so_slots ?c = [Ptr 1, Ptr 2]" by (simp add: so_slots_def)
  have u: "[3 ..< 5] = [3, 4 :: nat]" by (simp add: upt_rec)
  note T = sarrayConcatenate_appends_duplicates[where m = ?m and ?a1.0 = 0 and ?a2.0 = 1
      and ?s1.0 = ?d and ?s2.0 = ?c and a = 1 and s = ?c]
  have H1: "(0 :: nat) \<noteq> 1 \<and> obj_at (m_sarray ?m) 0 = Some ?d \<and> so_wf ?m ?d \<and>
    obj_at (m_sarray ?m) 1 = Some ?c \<and> so_wf ?m ?c"
    using w d by simp
  have H2: "obj_at (m_sarray ?m) 1 = Some ?c \<and> so_wf ?m ?c"
    using w d by simp
  from T[THEN conjunct1, rule_format, OF H1]
  obtain m' s1' where a: "sarrayConcatenate ?m (Ptr 0) (Ptr 1) = Some (0, m')"
      "obj_at (m_sarray m') 1 = Some ?c"
      "take (length (m_string ?m)) (m_string m') = m_string ?m"
      "obj_at (m_sarray m') 0 = Some s1'"
      "so_n s1' = so_n ?d + so_n ?c"
      "take (nat (so_n ?d)) (so_slots s1') = so_slots ?d"
      "drop (nat (so_n ?d)) (so_slots s1') =
           map Ptr [length (m_string ?m) ..< length (m_string ?m) + nat (so_n ?c)]"
      "so_strings m' s1' = so_strings ?m ?d @ so_strings ?m ?c"
      "\<forall>q v. Ptr q \<in> set (so_slots ?c) \<longrightarrow>
            drop (nat (so_n ?d)) (so_strings (poke m' q v) s1') = so_strings ?m ?c"
    by blast
  from T[THEN conjunct2, rule_format, OF H2]
  obtain m'' s' where b: "sarrayConcatenate ?m (Ptr 1) (Ptr 1) = Some (0, m'')"
      "obj_at (m_sarray m'') 1 = Some s'" "so_n s' = 2 * so_n ?c"
      "so_strings m'' s' = so_strings ?m ?c @ so_strings ?m ?c"
    by blast
  have "so_slots s1' = take (nat (so_n ?d)) (so_slots s1') @ drop (nat (so_n ?d)) (so_slots s1')"
    by simp
  then have sl: "so_slots s1' = [Ptr 0, Ptr 3, Ptr 4]"
    unfolding a(6) a(7) by (simp add: so_slots_def u)
  have "Ptr 1 \<in> set (so_slots ?c)" unfolding sl2 by simp
  with a(9) have "drop (nat (so_n ?d)) (so_strings (poke m' 1 None) s1') = so_strings ?m ?c"
    by blast
  then have pk: "drop 1 (so_strings (poke m' 1 None) s1') = [''b'', ''c'']"
    unfolding s by simp
  have A: "\<exists>m' s1'. sarrayConcatenate ?m (Ptr 0) (Ptr 1) = Some (0, m') \<and>
      obj_at (m_sarray m') 1 = Some ?c \<and>
      take 3 (m_string m') = [Some ''a'', Some ''b'', Some ''c''] \<and>
      obj_at (m_sarray m') 0 = Some s1' \<and> so_n s1' = 3 \<and>
      so_slots s1' = [Ptr 0, Ptr 3, Ptr 4] \<and>
      so_strings m' s1' = [''a'', ''b'', ''c''] \<and>
      drop 1 (so_strings (poke m' 1 None) s1') = [''b'', ''c'']"
    using a(1-5) sl a(8) pk unfolding s
    by (intro exI[of _ m'] exI[of _ s1']) (simp add: numeral_3_eq_3)
  have B: "\<exists>m' s'. sarrayConcatenate ?m (Ptr 1) (Ptr 1) = Some (0, m') \<and>
      obj_at (m_sarray m') 1 = Some s' \<and> so_n s' = 4 \<and>
      so_strings m' s' = [''b'', ''c'', ''b'', ''c'']"
    using b unfolding s
    by (intro exI[of _ m''] exI[of _ s']) simp
  from A B show ?thesis by (rule conjI)
qed

section \<open>Clone and destroy\<close>
lemma FREE_update: "FREE (update h a s) a = FREE h a"
  by (simp add: FREE_def update_def)
lemma update_same: "deref h a = Some s \<Longrightarrow> update h a s = h"
  by (auto simp: deref_def update_def split: if_splits intro: list_update_same_conv[THEN iffD2])
text \<open>
  Claim C6. \<^verbatim>\<open>sarrayClone\<close> returns the handle it was given (the same instance) and adds
  one to the reference count, changing nothing else. \<^verbatim>\<open>sarrayDestroy\<close> takes one from
  the count, nulls the handle it was given, and frees the instance when the count is then
  \<open>\<le> 0\<close>: for a live array (count \<open>\<ge> 1\<close>) exactly when the count reaches zero. So cloning
  a live array and destroying the clone leaves the store as it was: the original handle
  still points to the array, with its elements and its count.
\<close>
theorem sarrayClone_then_Destroy:
  "(deref h a = Some s \<longrightarrow>
      sarrayClone h (Ptr a) = Some (Ptr a, update h a (s\<lparr>sa_refcount := sa_refcount s + 1\<rparr>))) \<and>
   (deref h a = Some s \<longrightarrow>
      sarrayDestroy h (Ptr (Ptr a)) =
        Some (Ptr NULL, if sa_refcount s - 1 \<le> 0 then FREE h a
                        else update h a (s\<lparr>sa_refcount := sa_refcount s - 1\<rparr>))) \<and>
   (deref h a = Some s \<and> 1 \<le> sa_refcount s \<longrightarrow>
      (\<exists>h'. sarrayDestroy h (Ptr (Ptr a)) = Some (Ptr NULL, h') \<and>
         (deref h' a = None) = (sa_refcount s = 1))) \<and>
   (deref h a = Some s \<and> 1 \<le> sa_refcount s \<longrightarrow>
      (\<exists>h1. sarrayClone h (Ptr a) = Some (Ptr a, h1) \<and>
         sarrayDestroy h1 (Ptr (Ptr a)) = Some (Ptr NULL, h) \<and>
         deref h a = Some s))"
proof (intro conjI impI)
  assume d: "deref h a = Some s"
  then show c: "sarrayClone h (Ptr a) = Some (Ptr a, update h a (s\<lparr>sa_refcount := sa_refcount s + 1\<rparr>))"
    by (simp add: sarrayClone_def sarrayChangeRefcount_def)
next
  assume d: "deref h a = Some s"
  then have al: "a < length h" by (rule deref_Some_less)
  with d show "sarrayDestroy h (Ptr (Ptr a)) =
        Some (Ptr NULL, if sa_refcount s - 1 \<le> 0 then FREE h a
                        else update h a (s\<lparr>sa_refcount := sa_refcount s - 1\<rparr>))"
    by (simp add: sarrayDestroy_def sarrayChangeRefcount_def sarrayGetRefcount_def deref_update
        FREE_update)
next
  assume A: "deref h a = Some s \<and> 1 \<le> sa_refcount s"
  then have al: "a < length h" by (auto dest: deref_Some_less)
  with A show "\<exists>h'. sarrayDestroy h (Ptr (Ptr a)) = Some (Ptr NULL, h') \<and>
         (deref h' a = None) = (sa_refcount s = 1)"
    by (auto simp: sarrayDestroy_def sarrayChangeRefcount_def sarrayGetRefcount_def deref_update
        deref_FREE FREE_update)
next
  assume A: "deref h a = Some s \<and> 1 \<le> sa_refcount s"
  then have al: "a < length h" and d: "deref h a = Some s" by (auto dest: deref_Some_less)
  let ?h1 = "update h a (s\<lparr>sa_refcount := sa_refcount s + 1\<rparr>)"
  have c: "sarrayClone h (Ptr a) = Some (Ptr a, ?h1)"
    using d by (simp add: sarrayClone_def sarrayChangeRefcount_def)
  have "sarrayDestroy ?h1 (Ptr (Ptr a)) = Some (Ptr NULL, update h a s)"
    using A al
    by (simp add: sarrayDestroy_def sarrayChangeRefcount_def sarrayGetRefcount_def deref_update
        update_update)
  with update_same[OF d] c d
  show "\<exists>h1. sarrayClone h (Ptr a) = Some (Ptr a, h1) \<and>
         sarrayDestroy h1 (Ptr (Ptr a)) = Some (Ptr NULL, h) \<and>
         deref h a = Some s"
    by auto
qed
theorem sarrayClone_then_Destroy_witness:
  "sarrayClone [Some \<lparr>sa_nalloc = 1, sa_n = 1, sa_refcount = 1, sa_array = [Ptr ''a'']\<rparr>] (Ptr 0) =
     Some (Ptr 0, [Some \<lparr>sa_nalloc = 1, sa_n = 1, sa_refcount = 2, sa_array = [Ptr ''a'']\<rparr>]) \<and>
   sarrayDestroy [Some \<lparr>sa_nalloc = 1, sa_n = 1, sa_refcount = 2, sa_array = [Ptr ''a'']\<rparr>]
       (Ptr (Ptr 0)) =
     Some (Ptr NULL, [Some \<lparr>sa_nalloc = 1, sa_n = 1, sa_refcount = 1, sa_array = [Ptr ''a'']\<rparr>]) \<and>
   sarrayDestroy [Some \<lparr>sa_nalloc = 1, sa_n = 1, sa_refcount = 1, sa_array = [Ptr ''a'']\<rparr>]
       (Ptr (Ptr 0)) = Some (Ptr NULL, [None])"
proof -
  let ?c = "\<lparr>sa_nalloc = 1, sa_n = 1, sa_refcount = 1, sa_array = [Ptr ''a'']\<rparr>"
  let ?d = "\<lparr>sa_nalloc = 1, sa_n = 1, sa_refcount = 2, sa_array = [Ptr ''a'']\<rparr>"
  have d: "deref [Some ?c] 0 = Some ?c" "deref [Some ?d] 0 = Some ?d"
    by (simp_all add: deref_def)
  from sarrayClone_then_Destroy[where h = "[Some ?c]" and a = 0 and s = ?c]
       sarrayClone_then_Destroy[where h = "[Some ?d]" and a = 0 and s = ?d] d
  show ?thesis by (simp add: update_def FREE_def)
qed

section \<open>Splitting into words and lines\<close>

text \<open>
  Claim C4. \<^verbatim>\<open>sarrayCreateWordsFromString\<close> on \<^verbatim>\<open>"  a  bb   c "\<close> gives exactly the
  strings a, bb, c (and tabs and newlines separate words as spaces do);
  \<^verbatim>\<open>sarrayCreateLinesFromString\<close> on \<^verbatim>\<open>"a\n\nb"\<close> gives a, the empty string and b when
  blank lines are kept (the final segment has no newline and is appended), and a, b
  when they are not.
\<close>

theorem sarrayCreate_from_string_examples:
  "sarrayCreateWordsFromString [] (Ptr ''  a  bb   c '') =
     Some (Ptr 0, [Some \<lparr>sa_nalloc = 3, sa_n = 3, sa_refcount = 1,
                          sa_array = [Ptr ''a'', Ptr ''bb'', Ptr ''c'']\<rparr>]) \<and>
   sarrayCreateWordsFromString [] (Ptr [CHR ''a'', CHR 0x09, CHR ''b'', CHR 0x0A, CHR 0x0A, CHR ''c'', CHR 0x20, CHR ''d'']) =
     Some (Ptr 0, [Some \<lparr>sa_nalloc = 4, sa_n = 4, sa_refcount = 1,
                          sa_array = [Ptr ''a'', Ptr ''b'', Ptr ''c'', Ptr ''d'']\<rparr>]) \<and>
   sarrayCreateLinesFromString [] (Ptr [CHR ''a'', CHR 0x0A, CHR 0x0A, CHR ''b'']) 1 =
     Some (Ptr 0, [Some \<lparr>sa_nalloc = 4, sa_n = 3, sa_refcount = 1,
                          sa_array = [Ptr ''a'', Ptr [], Ptr ''b'', NULL]\<rparr>]) \<and>
   sarrayCreateLinesFromString [] (Ptr [CHR ''a'', CHR 0x0A, CHR 0x0A, CHR ''b'']) 0 =
     Some (Ptr 0, [Some \<lparr>sa_nalloc = 2, sa_n = 2, sa_refcount = 1,
                          sa_array = [Ptr ''a'', Ptr ''b'']\<rparr>])"
  by code_simp

section \<open>Words to lines: the loop as a function on lists\<close>

lemma length_FREE: "length (FREE h a) = length h"
  by (simp add: FREE_def)

lemma drop_take_step:
  assumes "n \<le> length xs" "i < n"
  shows "drop i (take n xs) = xs ! i # drop (Suc i) (take n xs)"
proof -
  from assms have "i < length (take n xs)" by simp
  from Cons_nth_drop_Suc[OF this] assms(2) show ?thesis by simp
qed

lemma size_loop_defined:
  assumes "deref h a = Some s" "sa_wf s" "0 \<le> i" "lasti < sa_n s"
  shows "\<exists>v. size_loop h (Ptr a) i lasti sz = Some v"
  using assms
proof (induction h "Ptr a :: addr ptr" i lasti sz rule: size_loop.induct)
  case (1 h i lasti sz)
  show ?case
  proof (cases "i \<le> lasti")
    case False
    then show ?thesis by (subst size_loop.simps) simp
  next
    case True
    with "1.prems" have g: "sarrayGetString h (Ptr a) i L_NOCOPY = Some (Ptr (sa_strings s ! nat i))"
      by (intro sarrayGetString_nocopy) auto
    have l: "strlen (Ptr (sa_strings s ! nat i)) = Some (int (length (sa_strings s ! nat i)))"
      by (simp add: strlen_def)
    from "1.hyps"[OF True g l] "1.prems"
    obtain v where "size_loop h (Ptr a) (i + 1) lasti (sz + (int (length (sa_strings s ! nat i)) + 2)) = Some v"
      by auto
    with True g l show ?thesis by (subst size_loop.simps) simp
  qed
qed

lemma join_loop_result_aux:
  assumes "arr = sa_array s" "sa_wf s" "0 \<le> i" "lasti < sa_n s"
  shows "join_loop arr addnlflag i lasti dest =
     Some (dest @ join_with addnlflag (drop (nat i) (take (nat (lasti + 1)) (sa_strings s))))"
  using assms
proof (induction arr addnlflag i lasti dest rule: join_loop.induct)
  case (1 arr addnlflag i lasti dest)
  note p = "1.prems"
  show ?case
  proof (cases "i \<le> lasti")
    case False
    then show ?thesis by (subst join_loop.simps) (simp add: join_with_def)
  next
    case True
    let ?w = "sa_strings s ! nat i"
    from True p have sl: "sa_array s ! nat i = Ptr ?w"
      by (intro sa_wf_slot) auto
    from True p have r: "rd arr i = Some (Ptr ?w)"
      using sl by (auto simp: rd_def sa_wf_def sa_inv_def)
    have l: "strlen (Ptr ?w) = Some (int (length ?w))" by (simp add: strlen_def)
    have c: "(case Ptr ?w of NULL \<Rightarrow> None | Ptr s \<Rightarrow> Some s) = Some ?w" by simp
    from True p have "nat (lasti + 1) \<le> length (sa_strings s)" "nat i < nat (lasti + 1)"
      by (auto simp: length_sa_strings sa_wf_inv)
    from drop_take_step[OF this] p(3)
    have dr: "drop (nat i) (take (nat (lasti + 1)) (sa_strings s)) =
        ?w # drop (nat (i + 1)) (take (nat (lasti + 1)) (sa_strings s))"
      by (simp add: nat_add_distrib)
    from p have i1: "0 \<le> i + 1" by simp
    note ih = "1.IH"[OF True r l c p(1) p(2) i1 p(4)]
    from True r l dr ih show ?thesis
      by (subst join_loop.simps) (simp add: join_with_def sep_of_def)
  qed
qed

lemma join_loop_result:
  assumes "sa_wf s" "0 \<le> i" "lasti < sa_n s"
  shows "join_loop (sa_array s) addnlflag i lasti dest =
     Some (dest @ join_with addnlflag (drop (nat i) (take (nat (lasti + 1)) (sa_strings s))))"
  using join_loop_result_aux[OF refl assms] .

lemma sarrayToString_nonempty:
  assumes "deref h a = Some s" "sa_wf s" "0 < sa_n s"
  shows "sarrayToString h (Ptr a) addnlflag = Some (Ptr (join_with addnlflag (sa_strings s)))"
proof -
  from assms obtain v where v: "size_loop h (Ptr a) 0 (sa_n s - 1) 0 = Some v"
    using size_loop_defined[of h a s 0 "sa_n s - 1" 0] by auto
  from assms have j: "join_loop (sa_array s) addnlflag 0 (sa_n s - 1) [] =
      Some ([] @ join_with addnlflag (drop (nat 0) (take (nat (sa_n s - 1 + 1)) (sa_strings s))))"
    by (intro join_loop_result) auto
  from assms have "length (sa_strings s) = nat (sa_n s)"
    by (simp add: length_sa_strings sa_wf_inv)
  with assms v j show ?thesis
    by (simp add: sarrayToString_def sarrayToStringRange_def sarrayGetCount_def Let_def)
qed

lemma empty_sa_wf: "sa_wf empty_sa" "sa_strings empty_sa = []" "sa_refcount empty_sa = 1"
  by (simp_all add: empty_sa_def sa_wf_def sa_inv_def sa_strings_def)

lemma sarrayCreate_0: "sarrayCreate h 0 = (Ptr (length h), h @ [Some empty_sa])"
  by (simp add: sarrayCreate_def empty_sa_def INITIAL_PTR_ARRAYSIZE_def)

lemma sarrayDestroy_last:
  assumes "deref h l = Some sl" "sa_refcount sl = 1"
  shows "sarrayDestroy h (Ptr (Ptr l)) = Some (Ptr NULL, FREE h l)"
  using assms deref_Some_less[OF assms(1)]
  by (simp add: sarrayDestroy_def sarrayChangeRefcount_def sarrayGetRefcount_def deref_update
      FREE_update)

lemma sal_prepare:
  assumes "sal_ok h a b sal cur" "a < length h" "b < length h"
  shows "\<exists>l h1 sl. (if sal = NULL then sarrayCreate h 0 else (sal, h)) = (Ptr l, h1) \<and>
           deref h1 l = Some sl \<and> sa_wf sl \<and> sa_strings sl = cur \<and> sa_refcount sl = 1 \<and>
           l \<noteq> a \<and> l \<noteq> b \<and> deref h1 a = deref h a \<and> deref h1 b = deref h b \<and>
           length h \<le> length h1"
proof (cases sal)
  case NULL
  with assms show ?thesis
    by (auto simp: sal_ok_def sarrayCreate_0 deref_append_new empty_sa_wf)
next
  case (Ptr l)
  with assms show ?thesis
    by (auto simp: sal_ok_def split: option.splits)
qed

lemma words_loop_refines:
  assumes "a \<noteq> b" "deref h a = Some s" "sa_wf s" "deref h b = Some so" "sa_wf so"
    and "sal_ok h a b sal cur" "0 \<le> totlen" "totlen > 0 \<longrightarrow> cur \<noteq> []"
    and "0 \<le> i" "i \<le> sa_n s"
  shows "\<exists>h' sal' totlen' so' cur'.
           words_loop h (Ptr a) linesize (Ptr b) (sa_n s) i sal totlen = Some (h', sal', totlen') \<and>
           deref h' a = Some s \<and> deref h' b = Some so' \<and> sa_wf so' \<and>
           sal_ok h' a b sal' cur' \<and> (totlen' > 0 \<longrightarrow> cur' \<noteq> [] \<and> sal' \<noteq> NULL) \<and>
           sa_strings so' @ (if totlen' > 0 then [join_with 2 cur'] else []) =
             sa_strings so @ reflow_lines linesize cur totlen (drop (nat i) (sa_strings s))"
  using assms
proof (induction "nat (sa_n s - i)" arbitrary: h i sal totlen so cur)
  case 0
  then have "i = sa_n s" by simp
  moreover from "0.prems" have "length (sa_strings s) = nat (sa_n s)"
    by (simp add: length_sa_strings sa_wf_inv)
  moreover from "0.prems" have "totlen > 0 \<longrightarrow> sal \<noteq> NULL"
    by (auto simp: sal_ok_def)
  ultimately show ?case using "0.prems"
    by (subst words_loop.simps) auto
next
  case (Suc k)
  note p = Suc.prems
  from Suc.hyps(2) have lt: "i < sa_n s" by simp
  let ?wd = "sa_strings s ! nat i"
  let ?len = "int (length ?wd)"
  from p have ab: "a < length h" "b < length h" by (auto dest: deref_Some_less)
  from sal_prepare[OF p(6) ab] obtain l h1 sl where
    prep: "(if sal = NULL then sarrayCreate h 0 else (sal, h)) = (Ptr l, h1)"
    and sl: "deref h1 l = Some sl" "sa_wf sl" "sa_strings sl = cur" "sa_refcount sl = 1"
    and ne: "l \<noteq> a" "l \<noteq> b"
    and fr: "deref h1 a = deref h a" "deref h1 b = deref h b"
    by blast
  from p fr have d1: "deref h1 a = Some s" "deref h1 b = Some so" by simp_all
  from d1 sl have lens: "a < length h1" "b < length h1" "l < length h1" by (auto dest: deref_Some_less)
  from p lt d1 have g: "sarrayGetString h1 (Ptr a) i L_NOCOPY = Some (Ptr ?wd)"
    by (intro sarrayGetString_nocopy) auto
  have sl': "strlen (Ptr ?wd) = Some ?len" by (simp add: strlen_def)
  from p lt have "nat (sa_n s) \<le> length (sa_strings s)" "nat i < nat (sa_n s)"
    by (auto simp: length_sa_strings sa_wf_inv)
  from drop_take_step[OF this] p(9) have dr: "drop (nat i) (sa_strings s) = ?wd # drop (nat (i + 1)) (sa_strings s)"
    using \<open>nat (sa_n s) \<le> length (sa_strings s)\<close> p(3)
    by (simp add: nat_add_distrib length_sa_strings sa_wf_inv)
  from Suc.hyps(2) p have k: "k = nat (sa_n s - (i + 1))" by simp
  have i1: "0 \<le> i + 1" "i + 1 \<le> sa_n s" using p lt by simp_all
  note ih = Suc.hyps(1)[OF k p(1) _ p(3) _ _ _ _ _ i1]
  have simps0: "words_loop h (Ptr a) linesize (Ptr b) (sa_n s) i sal totlen =
     do {
        let (sal, h1) = (Ptr l, h1);
        wd \<leftarrow> sarrayGetString h1 (Ptr a) i L_NOCOPY;
        len \<leftarrow> strlen wd;
        if len = 0 then do {
          h2 \<leftarrow> (if totlen > 0
                 then do {
                   strl \<leftarrow> sarrayToString h1 sal 2;
                   (_, h') \<leftarrow> sarrayAddString h1 (Ptr b) strl L_INSERT;
                   Some h'
                 }
                 else Some h1);
          (_, h3) \<leftarrow> sarrayAddString h2 (Ptr b) (Ptr []) L_COPY;
          (psal, h4) \<leftarrow> sarrayDestroy h3 (Ptr sal);
          sal' \<leftarrow> cell psal;
          words_loop h4 (Ptr a) linesize (Ptr b) (sa_n s) (i + 1) sal' 0
        }
        else if totlen = 0 \<and> len + 1 > linesize then do {
          (_, h2) \<leftarrow> sarrayAddString h1 (Ptr b) wd L_COPY;
          words_loop h2 (Ptr a) linesize (Ptr b) (sa_n s) (i + 1) sal totlen
        }
        else if totlen + len + 1 > linesize then do {
          strl \<leftarrow> sarrayToString h1 sal 2;
          (_, h2) \<leftarrow> sarrayAddString h1 (Ptr b) strl L_INSERT;
          (psal, h3) \<leftarrow> sarrayDestroy h2 (Ptr sal);
          let (sal', h4) = sarrayCreate h3 0;
          (_, h5) \<leftarrow> sarrayAddString h4 sal' wd L_COPY;
          words_loop h5 (Ptr a) linesize (Ptr b) (sa_n s) (i + 1) sal' (len + 1)
        }
        else do {
          (_, h2) \<leftarrow> sarrayAddString h1 sal wd L_COPY;
          words_loop h2 (Ptr a) linesize (Ptr b) (sa_n s) (i + 1) sal (totlen + len + 1)
        }
      }"
    using lt prep by (subst words_loop.simps) simp
  have flags: "L_INSERT = L_INSERT \<or> L_INSERT = L_COPY" "L_COPY = L_INSERT \<or> L_COPY = L_COPY"
    by simp_all
  have so_inv: "sa_inv so" using p by (simp add: sa_wf_inv)
  have ts: "sarrayToString h1 (Ptr l) 2 = Some (Ptr (join_with 2 cur))" if "0 < totlen"
  proof -
    from that p sl have "0 < sa_n sl"
      using length_sa_strings[OF sa_wf_inv[OF sl(2)]] by (cases "0 < sa_n sl") auto
    from sarrayToString_nonempty[OF sl(1) sl(2) this] sl(3) show ?thesis by simp
  qed
  consider (para) "?len = 0"
    | (long) "?len \<noteq> 0" "totlen = 0 \<and> ?len + 1 > linesize"
    | (flush) "?len \<noteq> 0" "\<not> (totlen = 0 \<and> ?len + 1 > linesize)" "totlen + ?len + 1 > linesize"
    | (acc) "?len \<noteq> 0" "\<not> (totlen = 0 \<and> ?len + 1 > linesize)" "\<not> totlen + ?len + 1 > linesize"
    by blast
  then show ?case
  proof cases
    case para
    have core: "\<exists>h' sal' totlen' so' cur'.
           words_loop h (Ptr a) linesize (Ptr b) (sa_n s) i sal totlen = Some (h', sal', totlen') \<and>
           deref h' a = Some s \<and> deref h' b = Some so' \<and> sa_wf so' \<and>
           sal_ok h' a b sal' cur' \<and> (totlen' > 0 \<longrightarrow> cur' \<noteq> [] \<and> sal' \<noteq> NULL) \<and>
           sa_strings so' @ (if totlen' > 0 then [join_with 2 cur'] else []) =
             sa_strings so @ reflow_lines linesize cur totlen (drop (nat i) (sa_strings s))"
      if d2: "deref h2 b = Some so2" and w2: "sa_wf so2" and dl2: "deref h2 l = Some sl"
        and da2: "deref h2 a = Some s"
        and eq0: "words_loop h (Ptr a) linesize (Ptr b) (sa_n s) i sal totlen =
          do {
            (_, h3) \<leftarrow> sarrayAddString h2 (Ptr b) (Ptr []) L_COPY;
            (psal, h4) \<leftarrow> sarrayDestroy h3 (Ptr (Ptr l));
            sal' \<leftarrow> cell psal;
            words_loop h4 (Ptr a) linesize (Ptr b) (sa_n s) (i + 1) sal' 0
          }"
        and s2: "sa_strings so2 = sa_strings so @ (if totlen > 0 then [join_with 2 cur] else [])"
      for h2 so2
    proof -
      let ?so3 = "add_str so2 []"
      let ?h3 = "update h2 b ?so3"
      let ?h4 = "FREE ?h3 l"
      from d2 dl2 da2 have len2: "a < length h2" "b < length h2" "l < length h2"
        by (auto dest: deref_Some_less)
      have ad2: "sarrayAddString h2 (Ptr b) (Ptr []) L_COPY = Some (0, ?h3)"
        by (rule sarrayAddString_ok[OF d2 sa_wf_inv[OF w2] flags(2)])
      have dl: "deref ?h3 l = Some sl" using dl2 ne by (simp add: deref_update)
      have ds: "sarrayDestroy ?h3 (Ptr (Ptr l)) = Some (Ptr NULL, ?h4)"
        by (rule sarrayDestroy_last[OF dl sl(4)])
      have eq: "words_loop h (Ptr a) linesize (Ptr b) (sa_n s) i sal totlen =
          words_loop ?h4 (Ptr a) linesize (Ptr b) (sa_n s) (i + 1) NULL 0"
        using ad2 ds by (simp add: eq0 cell_def)
      have da: "deref ?h4 a = Some s" using da2 ne p by (simp add: deref_FREE deref_update)
      have db: "deref ?h4 b = Some ?so3" using len2 ne by (simp add: deref_FREE deref_update)
      have w3: "sa_wf ?so3" using w2 by (rule add_str_wf)
      have so3: "sa_strings ?so3 = sa_strings so @ (if totlen > 0 then [join_with 2 cur] else []) @ [[]]"
        using w2 s2 by (simp add: add_str_strings sa_wf_inv)
      have sok: "sal_ok ?h4 a b NULL []" by (simp add: sal_ok_def)
      from ih[OF da db w3 sok] obtain h' sal' totlen' so' cur' where
        r: "words_loop ?h4 (Ptr a) linesize (Ptr b) (sa_n s) (i + 1) NULL 0 = Some (h', sal', totlen')"
          "deref h' a = Some s" "deref h' b = Some so'" "sa_wf so'"
          "sal_ok h' a b sal' cur'" "totlen' > 0 \<longrightarrow> cur' \<noteq> [] \<and> sal' \<noteq> NULL"
          "sa_strings so' @ (if totlen' > 0 then [join_with 2 cur'] else []) =
             sa_strings ?so3 @ reflow_lines linesize [] 0 (drop (nat (i + 1)) (sa_strings s))"
        by auto
      from r(7) so3 para dr
      have "sa_strings so' @ (if totlen' > 0 then [join_with 2 cur'] else []) =
          sa_strings so @ reflow_lines linesize cur totlen (drop (nat i) (sa_strings s))"
        by simp
      with eq r show ?thesis
        by (intro exI[of _ h'] exI[of _ sal'] exI[of _ totlen'] exI[of _ so'] exI[of _ cur']) simp
    qed
    show ?thesis
    proof (cases "0 < totlen")
      case True
      let ?so2 = "add_str so (join_with 2 cur)"
      let ?h2 = "update h1 b ?so2"
      have ad1: "sarrayAddString h1 (Ptr b) (Ptr (join_with 2 cur)) L_INSERT = Some (0, ?h2)"
        by (rule sarrayAddString_ok[OF d1(2) so_inv flags(1)])
      show ?thesis
      proof (rule core[of ?h2 ?so2])
        show "deref ?h2 b = Some ?so2" using lens by (simp add: deref_update)
        show "sa_wf ?so2" using p by (simp add: add_str_wf)
        show "deref ?h2 l = Some sl" using sl ne by (simp add: deref_update)
        show "deref ?h2 a = Some s" using d1 p by (simp add: deref_update)
        show "sa_strings ?so2 = sa_strings so @ (if totlen > 0 then [join_with 2 cur] else [])"
          using True so_inv by (simp add: add_str_strings)
        show "words_loop h (Ptr a) linesize (Ptr b) (sa_n s) i sal totlen =
          do {
            (_, h3) \<leftarrow> sarrayAddString ?h2 (Ptr b) (Ptr []) L_COPY;
            (psal, h4) \<leftarrow> sarrayDestroy h3 (Ptr (Ptr l));
            sal' \<leftarrow> cell psal;
            words_loop h4 (Ptr a) linesize (Ptr b) (sa_n s) (i + 1) sal' 0
          }"
          using para g sl' ts[OF True] ad1 True by (subst simps0) simp
      qed
    next
      case False
      show ?thesis
      proof (rule core[of h1 so])
        show "deref h1 b = Some so" by (rule d1)
        show "sa_wf so" by (rule p)
        show "deref h1 l = Some sl" by (rule sl)
        show "deref h1 a = Some s" by (rule d1)
        show "sa_strings so = sa_strings so @ (if totlen > 0 then [join_with 2 cur] else [])"
          using False by simp
        show "words_loop h (Ptr a) linesize (Ptr b) (sa_n s) i sal totlen =
          do {
            (_, h3) \<leftarrow> sarrayAddString h1 (Ptr b) (Ptr []) L_COPY;
            (psal, h4) \<leftarrow> sarrayDestroy h3 (Ptr (Ptr l));
            sal' \<leftarrow> cell psal;
            words_loop h4 (Ptr a) linesize (Ptr b) (sa_n s) (i + 1) sal' 0
          }"
          using para g sl' False by (subst simps0) simp
      qed
    qed
  next
    case long
    let ?so2 = "add_str so ?wd"
    let ?h2 = "update h1 b ?so2"
    have ad: "sarrayAddString h1 (Ptr b) (Ptr ?wd) L_COPY = Some (0, ?h2)"
      by (rule sarrayAddString_ok[OF d1(2) so_inv flags(2)])
    have eq: "words_loop h (Ptr a) linesize (Ptr b) (sa_n s) i sal totlen =
        words_loop ?h2 (Ptr a) linesize (Ptr b) (sa_n s) (i + 1) (Ptr l) totlen"
      using long g sl' ad by (subst simps0) simp
    have da: "deref ?h2 a = Some s" using d1 p by (simp add: deref_update)
    have db: "deref ?h2 b = Some ?so2" using lens by (simp add: deref_update)
    have w2: "sa_wf ?so2" using p by (simp add: add_str_wf)
    have so: "sal_ok ?h2 a b (Ptr l) cur" using sl ne by (simp add: sal_ok_def deref_update)
    from ih[OF da db w2 so p(7) p(8)] obtain h' sal' totlen' so' cur' where
      r: "words_loop ?h2 (Ptr a) linesize (Ptr b) (sa_n s) (i + 1) (Ptr l) totlen = Some (h', sal', totlen')"
        "deref h' a = Some s" "deref h' b = Some so'" "sa_wf so'"
        "sal_ok h' a b sal' cur'" "totlen' > 0 \<longrightarrow> cur' \<noteq> [] \<and> sal' \<noteq> NULL"
        "sa_strings so' @ (if totlen' > 0 then [join_with 2 cur'] else []) =
           sa_strings ?so2 @ reflow_lines linesize cur totlen (drop (nat (i + 1)) (sa_strings s))"
      by blast
    from r(7) long dr so_inv
    have "sa_strings so' @ (if totlen' > 0 then [join_with 2 cur'] else []) =
        sa_strings so @ reflow_lines linesize cur totlen (drop (nat i) (sa_strings s))"
      by (simp add: add_str_strings)
    with eq r show ?thesis
        by (intro exI[of _ h'] exI[of _ sal'] exI[of _ totlen'] exI[of _ so'] exI[of _ cur']) simp
  next
    case flush
    with p have tl: "0 < totlen" by auto
    let ?so2 = "add_str so (join_with 2 cur)"
    let ?h2 = "update h1 b ?so2"
    let ?h3 = "FREE ?h2 l"
    let ?l' = "length ?h3"
    let ?h4 = "?h3 @ [Some empty_sa]"
    let ?sl' = "add_str empty_sa ?wd"
    let ?h5 = "update ?h4 ?l' ?sl'"
    have ad1: "sarrayAddString h1 (Ptr b) (Ptr (join_with 2 cur)) L_INSERT = Some (0, ?h2)"
      by (rule sarrayAddString_ok[OF d1(2) so_inv flags(1)])
    have dl: "deref ?h2 l = Some sl" using sl ne by (simp add: deref_update)
    have ds: "sarrayDestroy ?h2 (Ptr (Ptr l)) = Some (Ptr NULL, ?h3)"
      by (rule sarrayDestroy_last[OF dl sl(4)])
    have cr: "sarrayCreate ?h3 0 = (Ptr ?l', ?h4)" by (rule sarrayCreate_0)
    have dn: "deref ?h4 ?l' = Some empty_sa" by (simp add: deref_append_new)
    have ad2: "sarrayAddString ?h4 (Ptr ?l') (Ptr ?wd) L_COPY = Some (0, ?h5)"
      by (rule sarrayAddString_ok[OF dn sa_wf_inv[OF empty_sa_wf(1)] flags(2)])
    have eq: "words_loop h (Ptr a) linesize (Ptr b) (sa_n s) i sal totlen =
        words_loop ?h5 (Ptr a) linesize (Ptr b) (sa_n s) (i + 1) (Ptr ?l') (?len + 1)"
      using flush g sl' ts[OF tl] ad1 ds cr ad2 by (subst simps0) auto
    have l3: "?l' = length h1" by (simp add: length_FREE length_update)
    have da: "deref ?h5 a = Some s" using d1 ne p lens
      by (simp add: deref_update deref_append_new deref_FREE length_FREE length_update)
    have db: "deref ?h5 b = Some ?so2" using lens ne
      by (simp add: deref_update deref_append_new deref_FREE length_FREE length_update)
    have w2: "sa_wf ?so2" using p by (simp add: add_str_wf)
    have so: "sal_ok ?h5 a b (Ptr ?l') [?wd]" using lens
      by (simp add: sal_ok_def deref_update deref_append_new length_FREE length_update
          add_str_wf empty_sa_wf add_str_strings sa_wf_inv add_str_sel)
    have t0: "0 \<le> ?len + 1" "?len + 1 > 0 \<longrightarrow> [?wd] \<noteq> []" by simp_all
    from ih[OF da db w2 so t0] obtain h' sal' totlen' so' cur' where
      r: "words_loop ?h5 (Ptr a) linesize (Ptr b) (sa_n s) (i + 1) (Ptr ?l') (?len + 1) = Some (h', sal', totlen')"
        "deref h' a = Some s" "deref h' b = Some so'" "sa_wf so'"
        "sal_ok h' a b sal' cur'" "totlen' > 0 \<longrightarrow> cur' \<noteq> [] \<and> sal' \<noteq> NULL"
        "sa_strings so' @ (if totlen' > 0 then [join_with 2 cur'] else []) =
           sa_strings ?so2 @ reflow_lines linesize [?wd] (?len + 1) (drop (nat (i + 1)) (sa_strings s))"
      by blast
    from r(7) flush dr so_inv
    have "sa_strings so' @ (if totlen' > 0 then [join_with 2 cur'] else []) =
        sa_strings so @ reflow_lines linesize cur totlen (drop (nat i) (sa_strings s))"
      by (auto simp: add_str_strings)
    with eq r show ?thesis
        by (intro exI[of _ h'] exI[of _ sal'] exI[of _ totlen'] exI[of _ so'] exI[of _ cur']) simp
  next
    case acc
    let ?sl2 = "add_str sl ?wd"
    let ?h2 = "update h1 l ?sl2"
    have ad: "sarrayAddString h1 (Ptr l) (Ptr ?wd) L_COPY = Some (0, ?h2)"
      by (rule sarrayAddString_ok[OF sl(1) sa_wf_inv[OF sl(2)] flags(2)])
    have eq: "words_loop h (Ptr a) linesize (Ptr b) (sa_n s) i sal totlen =
        words_loop ?h2 (Ptr a) linesize (Ptr b) (sa_n s) (i + 1) (Ptr l) (totlen + ?len + 1)"
      using acc g sl' ad by (subst simps0) auto
    have da: "deref ?h2 a = Some s" using d1 ne by (simp add: deref_update)
    have db: "deref ?h2 b = Some so" using d1 ne by (simp add: deref_update)
    have so: "sal_ok ?h2 a b (Ptr l) (cur @ [?wd])" using sl ne lens
      by (simp add: sal_ok_def deref_update add_str_wf add_str_strings sa_wf_inv add_str_sel)
    have t0: "0 \<le> totlen + ?len + 1" "totlen + ?len + 1 > 0 \<longrightarrow> cur @ [?wd] \<noteq> []"
      using p by simp_all
    from ih[OF da db p(5) so t0] obtain h' sal' totlen' so' cur' where
      r: "words_loop ?h2 (Ptr a) linesize (Ptr b) (sa_n s) (i + 1) (Ptr l) (totlen + ?len + 1) = Some (h', sal', totlen')"
        "deref h' a = Some s" "deref h' b = Some so'" "sa_wf so'"
        "sal_ok h' a b sal' cur'" "totlen' > 0 \<longrightarrow> cur' \<noteq> [] \<and> sal' \<noteq> NULL"
        "sa_strings so' @ (if totlen' > 0 then [join_with 2 cur'] else []) =
           sa_strings so @ reflow_lines linesize (cur @ [?wd]) (totlen + ?len + 1) (drop (nat (i + 1)) (sa_strings s))"
      by blast
    from r(7) acc dr
    have "sa_strings so' @ (if totlen' > 0 then [join_with 2 cur'] else []) =
        sa_strings so @ reflow_lines linesize cur totlen (drop (nat i) (sa_strings s))"
      by auto
    with eq r show ?thesis
        by (intro exI[of _ h'] exI[of _ sal'] exI[of _ totlen'] exI[of _ so'] exI[of _ cur']) simp
  qed
qed

lemma sarrayConvertWordsToLines_refines:
  assumes "deref h a = Some s" "sa_wf s"
  shows "\<exists>h' so. sarrayConvertWordsToLines h (Ptr a) linesize = Some (Ptr (length h), h') \<and>
           deref h' a = Some s \<and> deref h' (length h) = Some so \<and> sa_wf so \<and>
           sa_strings so = reflow_lines linesize [] 0 (sa_strings s)"
proof -
  let ?b = "length h"
  let ?h0 = "h @ [Some empty_sa]"
  from assms have al: "a < length h" by (auto dest: deref_Some_less)
  then have ab: "a \<noteq> ?b" by simp
  have da: "deref ?h0 a = Some s" using assms al by (simp add: deref_append_new)
  have db: "deref ?h0 ?b = Some empty_sa" by (simp add: deref_append_new)
  have cnt: "sarrayGetCount ?h0 (Ptr a) = Some (sa_n s)" using da by (simp add: sarrayGetCount_def)
  have n0: "0 \<le> sa_n s" using assms by (simp add: sa_wf_def sa_inv_def)
  from words_loop_refines[OF ab da assms(2) db empty_sa_wf(1), of NULL "[]" 0 0 linesize] n0
  obtain h1 sal' totlen' so' cur' where
    r: "words_loop ?h0 (Ptr a) linesize (Ptr ?b) (sa_n s) 0 NULL 0 = Some (h1, sal', totlen')"
      "deref h1 a = Some s" "deref h1 ?b = Some so'" "sa_wf so'"
      "sal_ok h1 a ?b sal' cur'" "totlen' > 0 \<longrightarrow> cur' \<noteq> [] \<and> sal' \<noteq> NULL"
      "sa_strings so' @ (if totlen' > 0 then [join_with 2 cur'] else []) =
         reflow_lines linesize [] 0 (sa_strings s)"
    by (auto simp: sal_ok_def empty_sa_wf)
  have unf: "sarrayConvertWordsToLines h (Ptr a) linesize =
      (if totlen' > 0 then do {
            strl \<leftarrow> sarrayToString h1 sal' 2;
            (_, h2) \<leftarrow> sarrayAddString h1 (Ptr ?b) strl L_INSERT;
            (psal, h3) \<leftarrow> sarrayDestroy h2 (Ptr sal');
            Some (Ptr ?b, h3)
          }
          else Some (Ptr ?b, h1))"
    using cnt r(1) by (simp add: sarrayConvertWordsToLines_def sarrayCreate_0)
  show ?thesis
  proof (cases "totlen' > 0")
    case False
    with unf r show ?thesis by simp
  next
    case True
    with r(6) obtain l where l: "sal' = Ptr l" by (cases sal') auto
    with r(5) obtain sl where sl: "deref h1 l = Some sl" "sa_wf sl" "sa_strings sl = cur'"
        "sa_refcount sl = 1" "l \<noteq> a" "l \<noteq> ?b"
      by (auto simp: sal_ok_def split: option.splits)
    from True r(6) sl have "0 < sa_n sl"
      using length_sa_strings[OF sa_wf_inv[OF sl(2)]] by (cases "0 < sa_n sl") auto
    from sarrayToString_nonempty[OF sl(1) sl(2) this] sl(3)
    have ts: "sarrayToString h1 (Ptr l) 2 = Some (Ptr (join_with 2 cur'))" by simp
    let ?so2 = "add_str so' (join_with 2 cur')"
    let ?h2 = "update h1 ?b ?so2"
    have ad: "sarrayAddString h1 (Ptr ?b) (Ptr (join_with 2 cur')) L_INSERT = Some (0, ?h2)"
      by (rule sarrayAddString_ok[OF r(3) sa_wf_inv[OF r(4)]]) simp
    have dl: "deref ?h2 l = Some sl" using sl by (simp add: deref_update)
    have ds: "sarrayDestroy ?h2 (Ptr (Ptr l)) = Some (Ptr NULL, FREE ?h2 l)"
      by (rule sarrayDestroy_last[OF dl sl(4)])
    from r(3) have bl: "?b < length h1" by (auto dest: deref_Some_less)
    have res: "sarrayConvertWordsToLines h (Ptr a) linesize = Some (Ptr ?b, FREE ?h2 l)"
      using True l ts ad ds by (simp add: unf)
    have "deref (FREE ?h2 l) a = Some s" using r(2) sl ab by (simp add: deref_FREE deref_update)
    moreover have "deref (FREE ?h2 l) ?b = Some ?so2" using bl sl
      by (simp add: deref_FREE deref_update)
    moreover have "sa_wf ?so2" using r(4) by (rule add_str_wf)
    moreover have "sa_strings ?so2 = reflow_lines linesize [] 0 (sa_strings s)"
      using r(7) True r(4) by (simp add: add_str_strings sa_wf_inv)
    ultimately show ?thesis using res by blast
  qed
qed

text \<open>
  Claim C3. For every array of words, \<^verbatim>\<open>sarrayConvertWordsToLines\<close> returns a new array
  whose strings are \<open>reflow_lines\<close> of the words. A token that is not empty and is not
  written out alone (a line is in progress, or the token with its separator fits) counts
  its length plus one for the separator: if the count of the line in progress plus that
  exceeds \<open>linesize\<close>, the line in progress is written first (its tokens, each followed by
  one space) and a new line starts with the token; otherwise the token joins the line in
  progress. At the end a line in progress is written. For the words aa, bb, cc and
  \<open>linesize = 6\<close> the result is exactly the two lines \<open>aa bb \<close> and \<open>cc \<close>.
\<close>

theorem sarrayConvertWordsToLines_accumulates:
  "(deref h a = Some s \<and> sa_wf s \<longrightarrow>
      (\<exists>h' so. sarrayConvertWordsToLines h (Ptr a) linesize = Some (Ptr (length h), h') \<and>
         deref h' a = Some s \<and> deref h' (length h) = Some so \<and>
         sa_strings so = reflow_lines linesize [] 0 (sa_strings s))) \<and>
   (wd \<noteq> [] \<and> \<not> (totlen = 0 \<and> int (length wd) + 1 > linesize) \<longrightarrow>
      reflow_lines linesize cur totlen (wd # ws) =
        (if totlen + int (length wd) + 1 > linesize
         then join_with 2 cur # reflow_lines linesize [wd] (int (length wd) + 1) ws
         else reflow_lines linesize (cur @ [wd]) (totlen + int (length wd) + 1) ws)) \<and>
   reflow_lines linesize cur totlen [] = (if totlen > 0 then [join_with 2 cur] else []) \<and>
   join_with 2 cur = concat (map (\<lambda>w. w @ '' '') cur) \<and>
   (\<exists>h'. sarrayConvertWordsToLines
        [Some \<lparr>sa_nalloc = 3, sa_n = 3, sa_refcount = 1,
               sa_array = [Ptr ''aa'', Ptr ''bb'', Ptr ''cc'']\<rparr>] (Ptr 0) 6 = Some (Ptr 1, h') \<and>
      map_option sa_strings (deref h' 1) = Some [''aa bb '', ''cc ''])"
proof (intro conjI impI)
  assume "deref h a = Some s \<and> sa_wf s"
  with sarrayConvertWordsToLines_refines[of h a s linesize]
  show "\<exists>h' so. sarrayConvertWordsToLines h (Ptr a) linesize = Some (Ptr (length h), h') \<and>
         deref h' a = Some s \<and> deref h' (length h) = Some so \<and>
         sa_strings so = reflow_lines linesize [] 0 (sa_strings s)"
    by blast
next
  assume "wd \<noteq> [] \<and> \<not> (totlen = 0 \<and> int (length wd) + 1 > linesize)"
  then show "reflow_lines linesize cur totlen (wd # ws) =
        (if totlen + int (length wd) + 1 > linesize
         then join_with 2 cur # reflow_lines linesize [wd] (int (length wd) + 1) ws
         else reflow_lines linesize (cur @ [wd]) (totlen + int (length wd) + 1) ws)"
    by auto
next
  show "reflow_lines linesize cur totlen [] = (if totlen > 0 then [join_with 2 cur] else [])"
    by simp
next
  show "join_with 2 cur = concat (map (\<lambda>w. w @ '' '') cur)"
    by (simp add: join_with_def sep_of_def)
next
  let ?H = "[Some \<lparr>sa_nalloc = 3, sa_n = 3, sa_refcount = 1,
               sa_array = [Ptr ''aa'', Ptr ''bb'', Ptr ''cc'']\<rparr>]"
  have "map_option (\<lambda>(p, h'). (p, map_option sa_strings (deref h' 1)))
      (sarrayConvertWordsToLines ?H (Ptr 0) 6) = Some (Ptr 1, Some [''aa bb '', ''cc ''])"
    by code_simp
  then show "\<exists>h'. sarrayConvertWordsToLines ?H (Ptr 0) 6 = Some (Ptr 1, h') \<and>
      map_option sa_strings (deref h' 1) = Some [''aa bb '', ''cc '']"
    by auto
qed

theorem sarrayConvertWordsToLines_accumulates_witness:
  "(\<exists>h' so. sarrayConvertWordsToLines
        [Some \<lparr>sa_nalloc = 3, sa_n = 3, sa_refcount = 1,
               sa_array = [Ptr ''aa'', Ptr ''bb'', Ptr ''cc'']\<rparr>] (Ptr 0) 6 = Some (Ptr 1, h') \<and>
      deref h' 1 = Some so \<and> sa_strings so = [''aa bb '', ''cc '']) \<and>
   reflow_lines 6 [''aa''] 3 [''bb'', ''cc''] = reflow_lines 6 [''aa'', ''bb''] 6 [''cc''] \<and>
   reflow_lines 6 [''aa'', ''bb''] 6 [''cc''] = ''aa bb '' # reflow_lines 6 [''cc''] 3 []"
proof -
  let ?S = "\<lparr>sa_nalloc = 3, sa_n = 3, sa_refcount = 1,
               sa_array = [Ptr ''aa'', Ptr ''bb'', Ptr ''cc'']\<rparr>"
  have d: "deref [Some ?S] 0 = Some ?S" by (simp add: deref_def)
  have w: "sa_wf ?S" by (simp add: sa_wf_def sa_inv_def)
  have s: "sa_strings ?S = [''aa'', ''bb'', ''cc'']" by (simp add: sa_strings_def)
  have j: "join_with 2 [''aa'', ''bb''] = ''aa bb ''" "join_with 2 [''cc''] = ''cc ''"
    by (simp_all add: join_with_def sep_of_def)
  from sarrayConvertWordsToLines_accumulates[where h = "[Some ?S]" and a = 0 and s = ?S
      and linesize = 6 and wd = "''bb''" and totlen = 3 and cur = "[''aa'']" and ws = "[''cc'']"]
    sarrayConvertWordsToLines_accumulates[where h = "[Some ?S]" and a = 0 and s = ?S
      and linesize = 6 and wd = "''cc''" and totlen = 6 and cur = "[''aa'', ''bb'']" and ws = "[]"]
    d w s j
  show ?thesis by auto
qed

text \<open>
  Claim C7, as amended. The test for a long word is \<^verbatim>\<open>len + 1 > linesize\<close>: the token
  together with its separator exceeds the width, which holds for every token longer than
  \<open>linesize\<close> and also for a token of exactly \<open>linesize\<close> characters. For every array of
  words the result of \<^verbatim>\<open>sarrayConvertWordsToLines\<close> is \<open>reflow_lines\<close> of the words; a
  token that is not empty and passes that test while no line is in progress
  (\<open>totlen = 0\<close>) is written out alone, whole and with no separator, and the state of the
  line in progress is as before; every other non-empty token goes into the line in
  progress, whose text is its tokens each followed by one space. So an array of one
  non-empty token gives the token itself exactly when its length plus one exceeds
  \<open>linesize\<close>, and the token followed by a space otherwise.
\<close>

theorem sarrayConvertWordsToLines_long_word:
  "(deref h a = Some s \<and> sa_wf s \<longrightarrow>
      (\<exists>h' so. sarrayConvertWordsToLines h (Ptr a) linesize = Some (Ptr (length h), h') \<and>
         deref h' a = Some s \<and> deref h' (length h) = Some so \<and>
         sa_strings so = reflow_lines linesize [] 0 (sa_strings s))) \<and>
   (wd \<noteq> [] \<and> int (length wd) + 1 > linesize \<longrightarrow>
      reflow_lines linesize cur 0 (wd # ws) = wd # reflow_lines linesize cur 0 ws) \<and>
   (wd \<noteq> [] \<and> int (length wd) > linesize \<longrightarrow>
      reflow_lines linesize cur 0 (wd # ws) = wd # reflow_lines linesize cur 0 ws) \<and>
   (wd \<noteq> [] \<and> 0 \<le> totlen \<and> \<not> (totlen = 0 \<and> int (length wd) + 1 > linesize) \<longrightarrow>
      (\<exists>pre cur' totlen'. reflow_lines linesize cur totlen (wd # ws) =
           pre @ reflow_lines linesize (cur' @ [wd]) totlen' ws \<and> 0 < totlen' \<and>
           (pre = [] \<and> cur' = cur \<or> pre = [join_with 2 cur] \<and> cur' = []))) \<and>
   (deref h a = Some s \<and> sa_wf s \<and> sa_strings s = [wd] \<and> wd \<noteq> [] \<longrightarrow>
      (\<exists>h' so. sarrayConvertWordsToLines h (Ptr a) linesize = Some (Ptr (length h), h') \<and>
         deref h' (length h) = Some so \<and>
         sa_strings so = (if int (length wd) + 1 > linesize then [wd] else [wd @ '' ''])))"
proof (intro conjI impI)
  assume "deref h a = Some s \<and> sa_wf s"
  with sarrayConvertWordsToLines_refines[of h a s linesize]
  show "\<exists>h' so. sarrayConvertWordsToLines h (Ptr a) linesize = Some (Ptr (length h), h') \<and>
         deref h' a = Some s \<and> deref h' (length h) = Some so \<and>
         sa_strings so = reflow_lines linesize [] 0 (sa_strings s)"
    by blast
next
  assume "wd \<noteq> [] \<and> int (length wd) + 1 > linesize"
  then show "reflow_lines linesize cur 0 (wd # ws) = wd # reflow_lines linesize cur 0 ws"
    by simp
next
  assume "wd \<noteq> [] \<and> int (length wd) > linesize"
  then show "reflow_lines linesize cur 0 (wd # ws) = wd # reflow_lines linesize cur 0 ws"
    by simp
next
  assume A: "wd \<noteq> [] \<and> 0 \<le> totlen \<and> \<not> (totlen = 0 \<and> int (length wd) + 1 > linesize)"
  show "\<exists>pre cur' totlen'. reflow_lines linesize cur totlen (wd # ws) =
           pre @ reflow_lines linesize (cur' @ [wd]) totlen' ws \<and> 0 < totlen' \<and>
           (pre = [] \<and> cur' = cur \<or> pre = [join_with 2 cur] \<and> cur' = [])"
  proof (cases "totlen + int (length wd) + 1 > linesize")
    case True
    with A show ?thesis
      by (intro exI[of _ "[join_with 2 cur]"] exI[of _ "[]"] exI[of _ "int (length wd) + 1"]) auto
  next
    case False
    with A show ?thesis
      by (intro exI[of _ "[]"] exI[of _ cur] exI[of _ "totlen + int (length wd) + 1"]) auto
  qed
next
  assume A: "deref h a = Some s \<and> sa_wf s \<and> sa_strings s = [wd] \<and> wd \<noteq> []"
  with sarrayConvertWordsToLines_refines[of h a s linesize]
  obtain h' so where r: "sarrayConvertWordsToLines h (Ptr a) linesize = Some (Ptr (length h), h')"
    "deref h' (length h) = Some so" "sa_strings so = reflow_lines linesize [] 0 [wd]"
    by auto
  from A have "reflow_lines linesize [] 0 [wd] =
      (if int (length wd) + 1 > linesize then [wd] else [wd @ '' ''])"
    by (auto simp: join_with_def sep_of_def)
  with r show "\<exists>h' so. sarrayConvertWordsToLines h (Ptr a) linesize = Some (Ptr (length h), h') \<and>
         deref h' (length h) = Some so \<and>
         sa_strings so = (if int (length wd) + 1 > linesize then [wd] else [wd @ '' ''])"
    by auto
qed

theorem sarrayConvertWordsToLines_long_word_counterexample:
  "(\<exists>h'. sarrayConvertWordsToLines
        [Some \<lparr>sa_nalloc = 1, sa_n = 1, sa_refcount = 1, sa_array = [Ptr ''abcdef'']\<rparr>] (Ptr 0) 6 =
          Some (Ptr 1, h') \<and>
      map_option sa_strings (deref h' 1) = Some [''abcdef'']) \<and>
   \<not> int (length ''abcdef'') > 6"
proof -
  let ?H = "[Some \<lparr>sa_nalloc = 1, sa_n = 1, sa_refcount = 1, sa_array = [Ptr ''abcdef'']\<rparr>]"
  have "map_option (\<lambda>(p, h'). (p, map_option sa_strings (deref h' 1)))
      (sarrayConvertWordsToLines ?H (Ptr 0) 6) = Some (Ptr 1, Some [''abcdef''])"
    by code_simp
  then have "\<exists>h'. sarrayConvertWordsToLines ?H (Ptr 0) 6 = Some (Ptr 1, h') \<and>
      map_option sa_strings (deref h' 1) = Some [''abcdef'']"
    by auto
  then show ?thesis by simp
qed

theorem sarrayConvertWordsToLines_long_word_witness:
  "(\<exists>h' so. sarrayConvertWordsToLines
        [Some \<lparr>sa_nalloc = 1, sa_n = 1, sa_refcount = 1, sa_array = [Ptr ''abcdefg'']\<rparr>] (Ptr 0) 6 =
          Some (Ptr 1, h') \<and>
      deref h' 1 = Some so \<and> sa_strings so = [''abcdefg'']) \<and>
   (\<exists>h' so. sarrayConvertWordsToLines
        [Some \<lparr>sa_nalloc = 1, sa_n = 1, sa_refcount = 1, sa_array = [Ptr ''abcde'']\<rparr>] (Ptr 0) 6 =
          Some (Ptr 1, h') \<and>
      deref h' 1 = Some so \<and> sa_strings so = [''abcde '']) \<and>
   reflow_lines 6 [] 0 [''abcdefg'', ''x''] = ''abcdefg'' # reflow_lines 6 [] 0 [''x'']"
proof -
  let ?S = "\<lparr>sa_nalloc = 1, sa_n = 1, sa_refcount = 1, sa_array = [Ptr ''abcdefg'']\<rparr>"
  let ?T = "\<lparr>sa_nalloc = 1, sa_n = 1, sa_refcount = 1, sa_array = [Ptr ''abcde'']\<rparr>"
  have d: "deref [Some ?S] 0 = Some ?S" "deref [Some ?T] 0 = Some ?T" by (simp_all add: deref_def)
  have w: "sa_wf ?S" "sa_wf ?T" by (simp_all add: sa_wf_def sa_inv_def)
  have s: "sa_strings ?S = [''abcdefg'']" "sa_strings ?T = [''abcde'']" by (simp_all add: sa_strings_def)
  from sarrayConvertWordsToLines_long_word[where h = "[Some ?S]" and a = 0 and s = ?S
      and linesize = 6 and wd = "''abcdefg''" and totlen = 0 and cur = "[]" and ws = "[''x'']"]
    sarrayConvertWordsToLines_long_word[where h = "[Some ?T]" and a = 0 and s = ?T
      and linesize = 6 and wd = "''abcde''" and totlen = 0 and cur = "[]" and ws = "[]"]
    d w s
  show ?thesis by auto
qed

section \<open>The comparator and the sort\<close>







end
